theory Spec2Isabelle
  imports Main "HOL-Library.Word" "HOL-Library.Char_ord" "HOL-Library.List_Lexorder"
begin

unbundle bit_operations_syntax

section \<open>Data model\<close>

subsection \<open>Span and diagnostics (misc.hh, exception.hh)\<close>

text \<open>\<^verbatim>\<open>struct Span\<close>: four \<^verbatim>\<open>size_t\<close> counters, all initialised to 0. Line and column
  counters are modelled as natural numbers.\<close>

record Span =
  beginLineNumber :: nat
  beginColumnNumber :: nat
  endLineNumber :: nat
  endColumnNumber :: nat

definition Span_default :: Span where
  "Span_default = \<lparr>beginLineNumber = 0, beginColumnNumber = 0, endLineNumber = 0, endColumnNumber = 0\<rparr>"

datatype GclErrorID =
    ExpectedIdentifier
  | ExpectedNumber
  | ExpectedPunctuaction
  | ExpectedStringEnd
  | ExpectedValue
  | KeyAlreadyDefined
  | InvalidDigit
  | InvalidEscape
  | UnknownChar

text \<open>\<^verbatim>\<open>class GclException\<close> has the members \<^verbatim>\<open>errorID\<close>, \<^verbatim>\<open>span\<close> and \<^verbatim>\<open>info\<close>. A member
  that no constructor initialises holds an indeterminate value; this is the value \<open>None\<close>
  of \<open>errorID\<close>. The member \<^verbatim>\<open>span\<close> is called \<open>exn_span\<close> here, because the record of
  tokens has a field \<open>span\<close> too.\<close>

record GclException =
  errorID :: "GclErrorID option"
  exn_span :: Span
  info :: string

text \<open>The constructor (exception.hh, line 28): its initialiser list is
  \<^verbatim>\<open>span{span}, info{std::move(info)}\<close>; the parameter \<^verbatim>\<open>errorID\<close> is not mentioned in it.\<close>

definition GclException :: "GclErrorID \<Rightarrow> Span \<Rightarrow> string \<Rightarrow> GclException" where
  "GclException errorID_arg span_arg info_arg =
     \<lparr>errorID = None, exn_span = span_arg, info = info_arg\<rparr>"

subsection \<open>Values (value.hh)\<close>

text \<open>\<^verbatim>\<open>intptr_t\<close> and \<^verbatim>\<open>uintptr_t\<close> are taken to be 64 bits wide; a \<^verbatim>\<open>float\<close> is kept as
  its 32-bit object representation.\<close>

type_synonym intptr_t = "64 word"

type_synonym uintptr_t = "64 word"

type_synonym float = "32 word"

datatype ValueType =
    ValueType_Undefined
  | ValueType_Null
  | ValueType_Bool
  | ValueType_Int
  | ValueType_Float
  | ValueType_String
  | ValueType_Array
  | ValueType_Dict

text \<open>\<^verbatim>\<open>class Value\<close> is a tag \<^verbatim>\<open>type\<close> with a union \<^verbatim>\<open>data\<close>; it is the datatype of the tag
  together with the live member of the union. \<^verbatim>\<open>Array\<close> is \<^verbatim>\<open>std::vector<Value>\<close>, and
  \<^verbatim>\<open>Dict\<close> is \<^verbatim>\<open>std::map<std::string, Value>\<close>, kept as the list of its entries in
  iteration order.\<close>

datatype Value =
    Value_Undefined
  | Value_Null
  | Value_Bool bool
  | Value_Int intptr_t
  | Value_Float float
  | Value_String string
  | Value_Array "Value list"
  | Value_Dict "(string \<times> Value) list"

type_synonym Array = "Value list"

type_synonym Dict = "(string \<times> Value) list"

fun type :: "Value \<Rightarrow> ValueType" where
  "type Value_Undefined = ValueType_Undefined"
| "type Value_Null = ValueType_Null"
| "type (Value_Bool b) = ValueType_Bool"
| "type (Value_Int i) = ValueType_Int"
| "type (Value_Float f) = ValueType_Float"
| "type (Value_String s) = ValueType_String"
| "type (Value_Array a) = ValueType_Array"
| "type (Value_Dict d) = ValueType_Dict"

text \<open>The typed accessors throw \<^verbatim>\<open>std::runtime_error\<close> when the tag is not the one asked
  for, and return the member of the union otherwise.\<close>

datatype runtime_error = runtime_error string

definition getBool :: "Value \<Rightarrow> runtime_error + bool" where
  "getBool v = (case v of Value_Bool b \<Rightarrow> Inr b
                | _ \<Rightarrow> Inl (runtime_error ''Value::getBool() -> type mismatch''))"

definition getInt :: "Value \<Rightarrow> runtime_error + intptr_t" where
  "getInt v = (case v of Value_Int i \<Rightarrow> Inr i
               | _ \<Rightarrow> Inl (runtime_error ''Value::getInt() -> type mismatch''))"

definition getFloat :: "Value \<Rightarrow> runtime_error + float" where
  "getFloat v = (case v of Value_Float f \<Rightarrow> Inr f
                 | _ \<Rightarrow> Inl (runtime_error ''Value::getFloat() -> type mismatch''))"

definition getString :: "Value \<Rightarrow> runtime_error + string" where
  "getString v = (case v of Value_String s \<Rightarrow> Inr s
                  | _ \<Rightarrow> Inl (runtime_error ''Value::getString() -> type mismatch''))"

definition getArray :: "Value \<Rightarrow> runtime_error + Array" where
  "getArray v = (case v of Value_Array a \<Rightarrow> Inr a
                 | _ \<Rightarrow> Inl (runtime_error ''Value::getArray() -> type mismatch''))"

definition getDict :: "Value \<Rightarrow> runtime_error + Dict" where
  "getDict v = (case v of Value_Dict d \<Rightarrow> Inr d
                | _ \<Rightarrow> Inl (runtime_error ''Value::getDict() -> type mismatch''))"

text \<open>A call returns when it does not throw.\<close>

definition returns :: "'e + 'a \<Rightarrow> bool" where
  "returns r \<longleftrightarrow> \<not> isl r"

text \<open>Which of the six accessors return, in the order \<^verbatim>\<open>getBool\<close>, \<^verbatim>\<open>getInt\<close>,
  \<^verbatim>\<open>getFloat\<close>, \<^verbatim>\<open>getString\<close>, \<^verbatim>\<open>getArray\<close>, \<^verbatim>\<open>getDict\<close>.\<close>

definition accessors_return :: "Value \<Rightarrow> bool list" where
  "accessors_return v =
     [returns (getBool v), returns (getInt v), returns (getFloat v),
      returns (getString v), returns (getArray v), returns (getDict v)]"

text \<open>\<^verbatim>\<open>releaseData\<close> runs the destructor of the live member when that member is a string,
  an array or a dict; the result lists what has been destroyed. \<open>Value_destroy\<close> is
  \<^verbatim>\<open>~Value()\<close>.\<close>

definition releaseData :: "Value \<Rightarrow> Value list" where
  "releaseData v = (case v of
       Value_String s \<Rightarrow> [Value_String s]
     | Value_Array a \<Rightarrow> [Value_Array a]
     | Value_Dict d \<Rightarrow> [Value_Dict d]
     | _ \<Rightarrow> [])"

definition Value_destroy :: "Value \<Rightarrow> Value list" where
  "Value_destroy v = (if type v \<noteq> ValueType_Undefined then releaseData v else [])"

text \<open>\<^verbatim>\<open>moveDataTo\<close>, for a destination whose tag has been set to the tag of the source:
  one case for each member of the union, and \<^verbatim>\<open>dest.i = 0\<close> by default.\<close>

fun moveDataTo :: "Value \<Rightarrow> Value" where
  "moveDataTo (Value_Bool b) = Value_Bool b"
| "moveDataTo (Value_Int i) = Value_Int i"
| "moveDataTo (Value_Float f) = Value_Float f"
| "moveDataTo (Value_String s) = Value_String s"
| "moveDataTo (Value_Array a) = Value_Array a"
| "moveDataTo (Value_Dict d) = Value_Dict d"
| "moveDataTo Value_Null = Value_Null"
| "moveDataTo Value_Undefined = Value_Undefined"

text \<open>The move constructor \<^verbatim>\<open>Value(Value&& that)\<close> builds a new object, which is no
  object that existed before: it gives the new object and what is left of \<^verbatim>\<open>that\<close>.\<close>

definition Value_move :: "Value \<Rightarrow> Value \<times> Value" where
  "Value_move that = (moveDataTo that, Value_Undefined)"

text \<open>The move assignment \<^verbatim>\<open>operator =(Value&& that)\<close> works on two objects that exist
  already, and nothing in it asks whether they are the same object or whether one lies
  inside the other. So the objects are kept in a store. A \<^verbatim>\<open>Value\<close> holds the elements of
  its array and the values of its dict by value: they are objects of their own inside it,
  owned by it. A place is an address of the store with a path, the positions to follow
  from the object at that address through arrays (the index of the element) and dicts (the
  position of the entry in iteration order); the empty path is the object itself.\<close>

type_synonym store = "nat \<rightharpoonup> Value"

type_synonym place = "nat \<times> nat list"

fun children :: "Value \<Rightarrow> Value list" where
  "children (Value_Array a) = a"
| "children (Value_Dict d) = map snd d"
| "children v = []"

fun with_children :: "Value \<Rightarrow> Value list \<Rightarrow> Value" where
  "with_children (Value_Array a) vs = Value_Array vs"
| "with_children (Value_Dict d) vs = Value_Dict (zip (map fst d) vs)"
| "with_children v vs = v"

fun object_in :: "Value \<Rightarrow> nat list \<Rightarrow> Value option" where
  "object_in v [] = Some v"
| "object_in v (i # p) =
     (if i < length (children v) then object_in (children v ! i) p else None)"

fun store_in :: "Value \<Rightarrow> nat list \<Rightarrow> Value \<Rightarrow> Value" where
  "store_in v [] w = w"
| "store_in v (i # p) w =
     (if i < length (children v)
      then with_children v ((children v)[i := store_in (children v ! i) p w])
      else v)"

text \<open>Reading and writing the object at a place.\<close>

definition deref :: "store \<Rightarrow> place \<Rightarrow> Value option" where
  "deref s r = (case s (fst r) of None \<Rightarrow> None | Some v \<Rightarrow> object_in v (snd r))"

definition assign :: "store \<Rightarrow> place \<Rightarrow> Value \<Rightarrow> store" where
  "assign s r w =
     (case s (fst r) of None \<Rightarrow> s | Some v \<Rightarrow> s(fst r \<mapsto> store_in v (snd r) w))"

text \<open>The object at \<open>r1\<close> owns the object at \<open>r2\<close> when \<open>r2\<close> lies inside it: same address,
  and the path of \<open>r1\<close> is a proper beginning of the path of \<open>r2\<close>.\<close>

definition owns :: "place \<Rightarrow> place \<Rightarrow> bool" where
  "owns r1 r2 \<longleftrightarrow>
     fst r1 = fst r2 \<and> snd r1 \<noteq> snd r2 \<and> take (length (snd r1)) (snd r2) = snd r1"

text \<open>What a run of the assignment can end in, other than a store: a reference that names
  no object; a read of an object after its destructor has run, which C++ leaves undefined;
  a destination that has become an element of its own payload, owned by no object of the
  store any more.\<close>

datatype fault = no_object | use_after_destroy | owns_itself

text \<open>\<^verbatim>\<open>operator =(Value&& that)\<close>, statement by statement, for \<^verbatim>\<open>this\<close> and \<^verbatim>\<open>that\<close> given as
  places. It returns what the destination has released and the store afterwards.

  \<^item> \<^verbatim>\<open>if (type != ValueType::Undefined) releaseData();\<close> destroys the string, array or dict
    of the destination, and with an array or a dict every object inside it.
  \<^item> \<^verbatim>\<open>type = that.type;\<close> reads the source. When the destination owned the source, the
    source has just been destroyed.
  \<^item> \<^verbatim>\<open>that.moveDataTo(data);\<close> reads the member of the source. When the source is the
    destination and its member was a string, an array or a dict, that member has just been
    destroyed; a \<^verbatim>\<open>bool\<close>, \<^verbatim>\<open>intptr_t\<close> or \<^verbatim>\<open>float\<close> is copied onto itself. When the source
    owns the destination, the destination takes over the storage it lies in.
  \<^item> \<^verbatim>\<open>that.type = ValueType::Undefined;\<close> is the last write, also when the source is the
    destination.\<close>

definition Value_move_assign :: "store \<Rightarrow> place \<Rightarrow> place \<Rightarrow> fault + Value list \<times> store" where
  "Value_move_assign s this that =
     (case deref s this of None \<Rightarrow> Inl no_object | Some v_this \<Rightarrow>
      case deref s that of None \<Rightarrow> Inl no_object | Some v_that \<Rightarrow>
        let released = (if type v_this \<noteq> ValueType_Undefined then releaseData v_this else [])
        in if released \<noteq> [] \<and> owns this that then Inl use_after_destroy
           else if released \<noteq> [] \<and> this = that then Inl use_after_destroy
           else if owns that this then Inl owns_itself
           else Inr (released,
                  assign (assign s this (moveDataTo v_that)) that Value_Undefined))"

subsection \<open>Tokens (tokenizer.hh)\<close>

datatype TokenKind =
    TokenKind_Eof
  | TokenKind_Int
  | TokenKind_Float
  | TokenKind_Identifier
  | TokenKind_String
  | TokenKind_Punctuaction

datatype Punctuaction = Lbrace | Rbrace | Lsqb | Rsqb | Comma | Colon

text \<open>\<^verbatim>\<open>class Token\<close> is a \<^verbatim>\<open>span\<close>, a tag \<^verbatim>\<open>kind\<close> and a union \<^verbatim>\<open>data\<close>; tag and live
  member of the union are one datatype again, and \<open>kind\<close> reads the tag.\<close>

datatype TokenData =
    Token_Eof
  | Token_Int uintptr_t
  | Token_Float float
  | Token_Identifier string
  | Token_String string
  | Token_Punctuaction Punctuaction

record Token =
  span :: Span
  data :: TokenData

definition kind :: "Token \<Rightarrow> TokenKind" where
  "kind tok = (case data tok of
       Token_Eof \<Rightarrow> TokenKind_Eof
     | Token_Int i \<Rightarrow> TokenKind_Int
     | Token_Float f \<Rightarrow> TokenKind_Float
     | Token_Identifier s \<Rightarrow> TokenKind_Identifier
     | Token_String s \<Rightarrow> TokenKind_String
     | Token_Punctuaction p \<Rightarrow> TokenKind_Punctuaction)"

text \<open>\<^verbatim>\<open>Token()\<close> and \<^verbatim>\<open>Token::reset\<close>: kind \<^verbatim>\<open>Eof\<close>, default span.\<close>

definition Token_default :: Token where
  "Token_default = \<lparr>span = Span_default, data = Token_Eof\<rparr>"

definition Token_reset :: "Token \<Rightarrow> Token" where
  "Token_reset tok = tok\<lparr>data := Token_Eof, span := Span_default\<rparr>"

subsection \<open>Tokenizer state (tokenizer.hh)\<close>

text \<open>The members of \<^verbatim>\<open>class Tokenizer\<close>. \<open>m_chars\<close> is the borrowed buffer and
  \<open>m_length\<close> the length the caller passed for it. The field \<open>reads\<close> is not a member of
  the class: it records, latest first, every index at which the code dereferences
  \<^verbatim>\<open>m_chars\<close>, so that statements about which bytes are read can be made.\<close>

record Tokenizer =
  m_chars :: string
  m_length :: nat
  m_index :: nat
  m_lineNumber :: nat
  m_columNumber :: nat
  m_char :: char
  m_token :: Token
  reads :: "nat list"

definition Tokenizer_default :: Tokenizer where
  "Tokenizer_default =
     \<lparr>m_chars = [], m_length = 0, m_index = 0, m_lineNumber = 1, m_columNumber = 0,
      m_char = CHR 0x00, m_token = Token_default, reads = []\<rparr>"

definition setText :: "Tokenizer \<Rightarrow> string \<Rightarrow> nat \<Rightarrow> Tokenizer" where
  "setText t chars len =
     t\<lparr>m_chars := chars, m_length := len, m_index := 0, m_lineNumber := 1, m_columNumber := 0,
       m_char := (if len > 0 then chars ! 0 else CHR 0x00),
       reads := (if len > 0 then 0 # reads t else reads t),
       m_token := Token_reset (m_token t)\<rparr>"

section \<open>Tokenizer (tokenizer.cc)\<close>

subsection \<open>Character classes\<close>

text \<open>The value of a \<^verbatim>\<open>char\<close> in comparisons and arithmetic, where it is promoted to
  \<^verbatim>\<open>int\<close>; plain \<^verbatim>\<open>char\<close> is taken to be signed.\<close>

definition char_int :: "char \<Rightarrow> int" where
  "char_int c = (if of_char c < (128::int) then of_char c else of_char c - 256)"

definition isAlpha :: "char \<Rightarrow> bool" where
  "isAlpha chr \<longleftrightarrow>
     (char_int chr \<ge> char_int CHR ''a'' \<and> char_int chr \<le> char_int CHR ''z'') \<or>
     (char_int chr \<ge> char_int CHR ''A'' \<and> char_int chr \<le> char_int CHR ''Z'')"

definition isDigit :: "char \<Rightarrow> int \<Rightarrow> bool" where
  "isDigit chr base =
     (if base = 10 then char_int chr \<ge> char_int CHR ''0'' \<and> char_int chr \<le> char_int CHR ''9''
      else if base = 16 then
        (char_int chr \<ge> char_int CHR ''0'' \<and> char_int chr \<le> char_int CHR ''9'') \<or>
        (char_int chr \<ge> char_int CHR ''A'' \<and> char_int chr \<le> char_int CHR ''F'') \<or>
        (char_int chr \<ge> char_int CHR ''a'' \<and> char_int chr \<le> char_int CHR ''f'')
      else if base = 2 then char_int chr \<ge> char_int CHR ''0'' \<and> char_int chr \<le> char_int CHR ''1''
      else False)"

definition isAlnum :: "char \<Rightarrow> bool" where
  "isAlnum chr \<longleftrightarrow> isAlpha chr \<or> isDigit chr 10"

definition charToDigit :: "char \<Rightarrow> int \<Rightarrow> int" where
  "charToDigit chr base =
     (if base \<le> 10 then char_int chr - char_int CHR ''0''
      else if base = 16 then
        (if char_int chr \<le> char_int CHR ''9'' then char_int chr - char_int CHR ''0''
         else if char_int chr \<le> char_int CHR ''F'' then char_int chr - char_int CHR ''A'' + 10
         else if char_int chr \<le> char_int CHR ''f'' then char_int chr - char_int CHR ''a'' + 10
         else 0)
      else 0)"

subsection \<open>The cursor\<close>

text \<open>\<^verbatim>\<open>Tokenizer::advanceChar\<close>: at the last index (or in an empty buffer) the current
  character becomes NUL and the index stays; otherwise the index is incremented and the
  byte there is read.\<close>

definition advanceChar :: "Tokenizer \<Rightarrow> bool \<times> Tokenizer" where
  "advanceChar t =
     (if m_index t + 1 \<ge> m_length t then (False, t\<lparr>m_char := CHR 0x00\<rparr>)
      else
        let i = m_index t + 1;
            t1 = t\<lparr>m_index := i, m_char := m_chars t ! i, reads := i # reads t\<rparr>
        in if m_char t1 = CHR 0x0A
           then (True, t1\<lparr>m_lineNumber := m_lineNumber t1 + 1, m_columNumber := 0\<rparr>)
           else (True, t1\<lparr>m_columNumber := m_columNumber t1 + 1\<rparr>))"

text \<open>What is left to scan: twice the distance of the index from the bound, plus one
  while the current character is not NUL. No call of \<open>advanceChar\<close> increases it, a
  call returning \<open>True\<close> decreases it, and so does a call on a character other than NUL.\<close>

definition remaining :: "Tokenizer \<Rightarrow> nat" where
  "remaining t = 2 * (m_length t - m_index t) + (if m_char t = CHR 0x00 then 0 else 1)"

lemma advanceChar_remaining_le: "remaining (snd (advanceChar t)) \<le> remaining t"
  by (auto simp: advanceChar_def remaining_def Let_def)

lemma advanceChar_True_remaining:
  "fst (advanceChar t) \<Longrightarrow> remaining (snd (advanceChar t)) < remaining t"
  by (auto simp: advanceChar_def remaining_def Let_def split: if_splits)

lemma advanceChar_nonzero_remaining:
  "m_char t \<noteq> CHR 0x00 \<Longrightarrow> remaining (snd (advanceChar t)) < remaining t"
  by (auto simp: advanceChar_def remaining_def Let_def)

lemma advanceChar_False_char: "\<not> fst (advanceChar t) \<Longrightarrow> m_char (snd (advanceChar t)) = CHR 0x00"
  by (auto simp: advanceChar_def Let_def split: if_splits)

subsection \<open>Whitespace and comments\<close>

function skipWhitespace :: "Tokenizer \<Rightarrow> Tokenizer" where
  "skipWhitespace t =
     (if m_char t = CHR '' '' \<or> m_char t = CHR 0x09 \<or> m_char t = CHR 0x0A
      then skipWhitespace (snd (advanceChar t))
      else t)"
  by pat_completeness auto
termination
  by (relation "measure remaining") (auto intro: advanceChar_nonzero_remaining)

declare skipWhitespace.simps [simp del]

text \<open>\<^verbatim>\<open>skipComment\<close>: one \<open>advanceChar\<close>, then the loop
  \<^verbatim>\<open>while (m_char != '\n') { if (!advanceChar()) break; }\<close>.\<close>

function skipComment_loop :: "Tokenizer \<Rightarrow> Tokenizer" where
  "skipComment_loop t =
     (if m_char t \<noteq> CHR 0x0A
      then (if fst (advanceChar t) then skipComment_loop (snd (advanceChar t))
            else snd (advanceChar t))
      else t)"
  by pat_completeness auto
termination
  by (relation "measure remaining") (auto intro: advanceChar_True_remaining)

declare skipComment_loop.simps [simp del]

definition skipComment :: "Tokenizer \<Rightarrow> Tokenizer" where
  "skipComment t = skipComment_loop (snd (advanceChar t))"

subsection \<open>Rendering (std::format and the formatters of tokenizer.cc)\<close>

definition digit_char :: "nat \<Rightarrow> char" where
  "digit_char d = char_of (of_char CHR ''0'' + d)"

fun format_nat :: "nat \<Rightarrow> string" where
  "format_nat n = (if n < 10 then [digit_char n] else format_nat (n div 10) @ [digit_char (n mod 10)])"

definition format_int :: "int \<Rightarrow> string" where
  "format_int i = (if i < 0 then CHR ''-'' # format_nat (nat (- i)) else format_nat (nat i))"

text \<open>The conversion of a \<^verbatim>\<open>float\<close> to \<^verbatim>\<open>intptr_t\<close> truncates towards zero. Outside the
  range of \<^verbatim>\<open>intptr_t\<close> (and for infinities and NaN) C++ leaves it undefined; the value
  given here for those is the one an x86-64 conversion instruction produces.\<close>

definition float_to_intptr :: "float \<Rightarrow> intptr_t" where
  "float_to_intptr f =
     (let e = unat (drop_bit 23 f AND 0xFF);
          m = 2 ^ 23 + unat (f AND 0x7FFFFF)
      in if e < 127 then 0
         else if e \<ge> 190 then 0x8000000000000000
         else
           let mag = (if e \<ge> 150 then m * 2 ^ (e - 150) else m div 2 ^ (150 - e))
           in if bit f 31 then - of_nat mag else of_nat mag)"

definition format_TokenKind :: "TokenKind \<Rightarrow> string" where
  "format_TokenKind k = (case k of
       TokenKind_Eof \<Rightarrow> ''eof''
     | TokenKind_Int \<Rightarrow> ''int''
     | TokenKind_Float \<Rightarrow> ''float''
     | TokenKind_Identifier \<Rightarrow> ''identifier''
     | TokenKind_String \<Rightarrow> ''string''
     | TokenKind_Punctuaction \<Rightarrow> ''punctuaction'')"

definition format_Punctuaction :: "Punctuaction \<Rightarrow> string" where
  "format_Punctuaction p = (case p of
       Lbrace \<Rightarrow> ''{'' | Rbrace \<Rightarrow> ''}'' | Lsqb \<Rightarrow> ''['' | Rsqb \<Rightarrow> '']''
     | Comma \<Rightarrow> '','' | Colon \<Rightarrow> '':'')"

text \<open>\<^verbatim>\<open>std::formatter<Token>\<close>: an \<^verbatim>\<open>Int\<close> token prints its payload as \<^verbatim>\<open>intptr_t\<close>, the
  default case prints the kind.\<close>

definition format_Token :: "Token \<Rightarrow> string" where
  "format_Token tok = (case data tok of
       Token_Int i \<Rightarrow> format_int (sint i)
     | Token_Float f \<Rightarrow> format_int (sint (float_to_intptr f))
     | Token_Identifier s \<Rightarrow> s
     | Token_String s \<Rightarrow> s
     | Token_Punctuaction p \<Rightarrow> format_Punctuaction p
     | Token_Eof \<Rightarrow> format_TokenKind (kind tok))"

subsection \<open>Identifiers\<close>

text \<open>The loop \<^verbatim>\<open>while (advanceChar() && (isAlnum(m_char) || m_char == '_'))\<close> of
  \<^verbatim>\<open>readIdentifier\<close>, with the identifier read so far.\<close>

function readIdentifier_loop :: "string \<Rightarrow> Tokenizer \<Rightarrow> string \<times> Tokenizer" where
  "readIdentifier_loop identifier t =
     (let ok = fst (advanceChar t); t' = snd (advanceChar t)
      in if ok \<and> (isAlnum (m_char t') \<or> m_char t' = CHR ''_'')
         then readIdentifier_loop (identifier @ [m_char t']) t'
         else (identifier, t'))"
  by pat_completeness auto
termination
  by (relation "measure (\<lambda>(identifier, t). remaining t)") (auto intro: advanceChar_True_remaining)

declare readIdentifier_loop.simps [simp del]

definition readIdentifier :: "Tokenizer \<Rightarrow> bool \<times> Tokenizer" where
  "readIdentifier t =
     (if \<not> isAlpha (m_char t) then (False, t)
      else
        let (identifier, t') = readIdentifier_loop [m_char t] t
        in (True, t'\<lparr>m_token := (m_token t')\<lparr>data := Token_Identifier identifier\<rparr>\<rparr>))"

subsection \<open>Numbers\<close>

text \<open>\<^verbatim>\<open>readNumber\<close> is split at its loops. \<open>readNumber_loop\<close> is
  \<^verbatim>\<open>while (advanceChar() && isDigit(m_char, base)) { value *= base; value += charToDigit(m_char, base); }\<close>
  on a \<^verbatim>\<open>uintptr_t\<close>, which wraps around.\<close>

function readNumber_loop :: "int \<Rightarrow> uintptr_t \<Rightarrow> Tokenizer \<Rightarrow> uintptr_t \<times> Tokenizer" where
  "readNumber_loop base val t =
     (let ok = fst (advanceChar t); t' = snd (advanceChar t)
      in if ok \<and> isDigit (m_char t') base
         then readNumber_loop base (val * of_int base + of_int (charToDigit (m_char t') base)) t'
         else (val, t'))"
  by pat_completeness auto
termination
  by (relation "measure (\<lambda>(base, val, t). remaining t)") (auto intro: advanceChar_True_remaining)

declare readNumber_loop.simps [simp del]

text \<open>\<^verbatim>\<open>while (isAlnum(m_char)) advanceChar();\<close>\<close>

function readNumber_skip :: "Tokenizer \<Rightarrow> Tokenizer" where
  "readNumber_skip t = (if isAlnum (m_char t) then readNumber_skip (snd (advanceChar t)) else t)"
  by pat_completeness auto
termination
proof (relation "measure remaining")
  fix t :: Tokenizer assume "isAlnum (m_char t)"
  then have "m_char t \<noteq> CHR 0x00"
    by (auto simp: isAlnum_def isAlpha_def isDigit_def char_int_def)
  then show "(snd (advanceChar t), t) \<in> measure remaining"
    by (simp add: advanceChar_nonzero_remaining)
qed simp

declare readNumber_skip.simps [simp del]

text \<open>From \<^verbatim>\<open>uintptr_t value = charToDigit(m_char, base);\<close> to the end of the function.\<close>

definition readNumber_digits :: "bool \<Rightarrow> int \<Rightarrow> Tokenizer \<Rightarrow> (GclException + bool) \<times> Tokenizer" where
  "readNumber_digits isNeg base t =
     (let (val, t1) = readNumber_loop base (of_int (charToDigit (m_char t) base)) t
      in if isAlnum (m_char t1) then
           let invalidDigitChr = m_char t1;
               t2 = readNumber_skip (snd (advanceChar t1))
           in (Inl (GclException InvalidDigit (span (m_token t2))
                     (''invalid digit `'' @ [invalidDigitChr] @ ''` for base '' @ format_int base)), t2)
         else
           (Inr True, t1\<lparr>m_token := (m_token t1)\<lparr>data := Token_Int (if isNeg then - val else val)\<rparr>\<rparr>))"

text \<open>After a prefix \<^verbatim>\<open>0b\<close> or \<^verbatim>\<open>0x\<close>: \<^verbatim>\<open>advanceChar()\<close>, then the check of the first
  digit.\<close>

definition readNumber_prefixed :: "bool \<Rightarrow> int \<Rightarrow> Tokenizer \<Rightarrow> (GclException + bool) \<times> Tokenizer" where
  "readNumber_prefixed isNeg base t =
     (let t1 = snd (advanceChar t)
      in if \<not> isDigit (m_char t1) base then
           (Inl (GclException InvalidDigit (span (m_token t1))
                  (''invalid digit `'' @ [m_char t1] @ ''` for base '' @ format_int base)), t1)
         else readNumber_digits isNeg base t1)"

text \<open>The sign: \<^verbatim>\<open>if (!isDigit(m_char)) { if '-' ... else if '+' ... else throw }\<close>.\<close>

definition readNumber_sign :: "Tokenizer \<Rightarrow> (GclException + bool) \<times> Tokenizer" where
  "readNumber_sign t =
     (if \<not> isDigit (m_char t) 10 then
        (if m_char t = CHR ''-'' then (Inr True, snd (advanceChar t))
         else if m_char t = CHR ''+'' then (Inr False, snd (advanceChar t))
         else (Inl (GclException UnknownChar (span (m_token t))
                     (''unknown character `'' @ [m_char t] @ ''`'')), t))
      else (Inr False, t))"

text \<open>After the sign: the prefix, if there is one, and the digits.\<close>

definition readNumber_magnitude :: "bool \<Rightarrow> Tokenizer \<Rightarrow> (GclException + bool) \<times> Tokenizer" where
  "readNumber_magnitude isNeg t1 =
     (if m_char t1 = CHR ''0'' then
        let t2 = snd (advanceChar t1)
        in if \<not> isDigit (m_char t2) 10 then
             (if m_char t2 = CHR ''b'' \<or> m_char t2 = CHR ''B'' then readNumber_prefixed isNeg 2 t2
              else if m_char t2 = CHR ''x'' \<or> m_char t2 = CHR ''X'' then readNumber_prefixed isNeg 16 t2
              else (Inr True, t2\<lparr>m_token := (m_token t2)\<lparr>data := Token_Int 0\<rparr>\<rparr>))
           else readNumber_digits isNeg 10 t2
      else readNumber_digits isNeg 10 t1)"

definition readNumber :: "Tokenizer \<Rightarrow> (GclException + bool) \<times> Tokenizer" where
  "readNumber t =
     (if \<not> isDigit (m_char t) 10 \<and> m_char t \<noteq> CHR ''-'' \<and> m_char t \<noteq> CHR ''+'' then (Inr False, t)
      else
        case readNumber_sign t of
          (Inl e, t1) \<Rightarrow> (Inl e, t1)
        | (Inr isNeg, t1) \<Rightarrow> readNumber_magnitude isNeg t1)"

subsection \<open>Punctuation, strings, end of input\<close>

definition readPunctuaction :: "Tokenizer \<Rightarrow> bool \<times> Tokenizer" where
  "readPunctuaction t =
     (case (if m_char t = CHR ''{'' then Some Lbrace
            else if m_char t = CHR ''}'' then Some Rbrace
            else if m_char t = CHR ''['' then Some Lsqb
            else if m_char t = CHR '']'' then Some Rsqb
            else if m_char t = CHR '','' then Some Comma
            else if m_char t = CHR '':'' then Some Colon
            else None) of
        None \<Rightarrow> (False, t)
      | Some punctuaction \<Rightarrow>
          let t1 = snd (advanceChar t)
          in (True, t1\<lparr>m_token := (m_token t1)\<lparr>data := Token_Punctuaction punctuaction\<rparr>\<rparr>))"

text \<open>The loop \<^verbatim>\<open>while (advanceChar() && m_char != '"')\<close> of \<^verbatim>\<open>readString\<close>, with the
  string built so far. \<open>CHR 0x22\<close> is the double quote, \<open>CHR 0x5C\<close> the backslash.\<close>

lemma advanceChar_twice_remaining:
  "fst (advanceChar t) \<Longrightarrow> remaining (snd (advanceChar (snd (advanceChar t)))) < remaining t"
  using advanceChar_True_remaining [of t] advanceChar_remaining_le [of "snd (advanceChar t)"] by simp

function readString_loop :: "string \<Rightarrow> Tokenizer \<Rightarrow> (GclException + string) \<times> Tokenizer" where
  "readString_loop str t =
     (let ok = fst (advanceChar t); t1 = snd (advanceChar t)
      in if ok \<and> m_char t1 \<noteq> CHR 0x22 then
           (if m_char t1 = CHR 0x0A then
              (Inl (GclException ExpectedStringEnd (span (m_token t1)) ''expected string end''), t1)
            else if m_char t1 = CHR 0x5C then
              (let t2 = snd (advanceChar t1)
               in if m_char t2 = CHR ''n'' then readString_loop (str @ [CHR 0x0A]) t2
                  else if m_char t2 = CHR ''t'' then readString_loop (str @ [CHR 0x09]) t2
                  else if m_char t2 = CHR 0x5C then readString_loop (str @ [CHR 0x5C]) t2
                  else if m_char t2 = CHR 0x22 then readString_loop (str @ [CHR 0x22]) t2
                  else (Inl (GclException InvalidEscape (span (m_token t2))
                              (''invalid escape sequence `'' @ [m_char t2] @ ''`'')), t2))
            else readString_loop (str @ [m_char t1]) t1)
         else (Inr str, t1))"
  by pat_completeness auto
termination
  by (relation "measure (\<lambda>(str, t). remaining t)")
     (auto intro: advanceChar_True_remaining advanceChar_twice_remaining)

declare readString_loop.simps [simp del]

definition readString :: "Tokenizer \<Rightarrow> (GclException + bool) \<times> Tokenizer" where
  "readString t =
     (if m_char t \<noteq> CHR 0x22 then (Inr False, t)
      else
        case readString_loop [] t of
          (Inl e, t1) \<Rightarrow> (Inl e, t1)
        | (Inr str, t1) \<Rightarrow>
            if m_char t1 \<noteq> CHR 0x22 then
              (Inl (GclException ExpectedStringEnd (span (m_token t1)) ''expected string end''), t1)
            else
              let t2 = snd (advanceChar t1)
              in (Inr True, t2\<lparr>m_token := (m_token t2)\<lparr>data := Token_String str\<rparr>\<rparr>))"

definition readMisc :: "Tokenizer \<Rightarrow> (GclException + bool) \<times> Tokenizer" where
  "readMisc t =
     (if m_char t = CHR 0x00 then (Inr True, t\<lparr>m_token := (m_token t)\<lparr>data := Token_Eof\<rparr>\<rparr>)
      else (Inl (GclException UnknownChar (span (m_token t))
                  (''unknown character `'' @ [m_char t] @ ''`'')), t))"

subsection \<open>advance\<close>

text \<open>The table \<^verbatim>\<open>READ_METHODS\<close> and the loop over it, which stops at the first method that
  returns true. The methods that throw nothing are lifted to the common result type.\<close>

definition no_throw :: "(Tokenizer \<Rightarrow> bool \<times> Tokenizer) \<Rightarrow> Tokenizer \<Rightarrow> (GclException + bool) \<times> Tokenizer" where
  "no_throw m t = (case m t of (b, t') \<Rightarrow> (Inr b, t'))"

definition READ_METHODS :: "(Tokenizer \<Rightarrow> (GclException + bool) \<times> Tokenizer) list" where
  "READ_METHODS = [no_throw readIdentifier, readNumber, no_throw readPunctuaction, readString, readMisc]"

fun read_methods :: "(Tokenizer \<Rightarrow> (GclException + bool) \<times> Tokenizer) list \<Rightarrow> Tokenizer
    \<Rightarrow> (GclException + unit) \<times> Tokenizer" where
  "read_methods [] t = (Inr (), t)"
| "read_methods (method # methods) t =
     (case method t of
        (Inl e, t') \<Rightarrow> (Inl e, t')
      | (Inr True, t') \<Rightarrow> (Inr (), t')
      | (Inr False, t') \<Rightarrow> read_methods methods t')"

lemma skipWhitespace_remaining: "remaining (skipWhitespace t) \<le> remaining t"
proof (induction t rule: skipWhitespace.induct)
  case (1 t)
  show ?case
  proof (cases "m_char t = CHR '' '' \<or> m_char t = CHR 0x09 \<or> m_char t = CHR 0x0A")
    case True
    then have "skipWhitespace t = skipWhitespace (snd (advanceChar t))"
      by (subst skipWhitespace.simps) simp
    with 1 [OF True] advanceChar_remaining_le [of t] show ?thesis by simp
  next
    case False
    then have "skipWhitespace t = t"
      by (subst skipWhitespace.simps) simp
    then show ?thesis by simp
  qed
qed

lemma skipComment_loop_remaining: "remaining (skipComment_loop t) \<le> remaining t"
proof (induction t rule: skipComment_loop.induct)
  case (1 t)
  show ?case
  proof (cases "m_char t \<noteq> CHR 0x0A \<and> fst (advanceChar t)")
    case True
    then have "skipComment_loop t = skipComment_loop (snd (advanceChar t))"
      by (subst skipComment_loop.simps) simp
    with 1 True advanceChar_remaining_le [of t] show ?thesis by simp
  next
    case False
    then have "skipComment_loop t = t \<or> skipComment_loop t = snd (advanceChar t)"
      by (subst skipComment_loop.simps, subst skipComment_loop.simps) auto
    with advanceChar_remaining_le [of t] show ?thesis by auto
  qed
qed

lemma skipComment_remaining:
  "m_char t \<noteq> CHR 0x00 \<Longrightarrow> remaining (skipComment t) < remaining t"
  using skipComment_loop_remaining [of "snd (advanceChar t)"] advanceChar_nonzero_remaining [of t]
  by (simp add: skipComment_def)

text \<open>\<^verbatim>\<open>while (m_char == '#') { skipComment(); skipWhitespace(); }\<close>\<close>

function skipComments :: "Tokenizer \<Rightarrow> Tokenizer" where
  "skipComments t =
     (if m_char t = CHR ''#'' then skipComments (skipWhitespace (skipComment t)) else t)"
  by pat_completeness auto
termination
proof (relation "measure remaining")
  fix t :: Tokenizer assume "m_char t = CHR ''#''"
  then have "remaining (skipComment t) < remaining t"
    by (intro skipComment_remaining) simp
  then show "(skipWhitespace (skipComment t), t) \<in> measure remaining"
    using skipWhitespace_remaining [of "skipComment t"] by simp
qed simp

declare skipComments.simps [simp del]

definition advance :: "Tokenizer \<Rightarrow> (GclException + bool) \<times> Tokenizer" where
  "advance t =
     (let t1 = skipComments (skipWhitespace t);
          t2 = t1\<lparr>m_token := Token_reset (m_token t1)\<rparr>;
          t3 = t2\<lparr>m_token := (m_token t2)\<lparr>span :=
                 \<lparr>beginLineNumber = m_lineNumber t2, beginColumnNumber = m_columNumber t2,
                  endLineNumber = m_lineNumber t2, endColumnNumber = m_columNumber t2\<rparr>\<rparr>\<rparr>
      in case read_methods READ_METHODS t3 of
           (Inl e, t4) \<Rightarrow> (Inl e, t4)
         | (Inr u, t4) \<Rightarrow>
             let t5 = t4\<lparr>m_token := (m_token t4)\<lparr>span := (span (m_token t4))
                        \<lparr>endLineNumber := m_lineNumber t4, endColumnNumber := m_columNumber t4\<rparr>\<rparr>\<rparr>
             in (Inr (kind (m_token t5) \<noteq> TokenKind_Eof), t5))"

section \<open>Parser (parser.cc)\<close>

subsection \<open>Insertion into a Dict\<close>

text \<open>\<^verbatim>\<open>std::map::insert\<close>: the entries are kept in the order of their keys under
  \<^verbatim>\<open>std::less<std::string>\<close>, the lexicographic order of the bytes; an entry whose
  key is present already is not inserted and nothing is overwritten. The second component
  is the \<^verbatim>\<open>bool\<close> of the returned pair.\<close>

fun insert_Dict :: "string \<times> Value \<Rightarrow> Dict \<Rightarrow> Dict \<times> bool" where
  "insert_Dict (k, v) [] = ([(k, v)], True)"
| "insert_Dict (k, v) ((k', v') # d) =
     (if k < k' then ((k, v) # (k', v') # d, True)
      else if k' < k then (case insert_Dict (k, v) d of (d', inserted) \<Rightarrow> ((k', v') # d', inserted))
      else ((k', v') # d, False))"

subsection \<open>Recursive descent\<close>

text \<open>The parser's functions call each other recursively, and \<^verbatim>\<open>parseArray\<close> and
  \<^verbatim>\<open>parseDict\<close> loop with \<^verbatim>\<open>for (;;)\<close>. Each function takes a bound on the depth of calls
  that are still allowed and returns \<open>None\<close> when the bound is used up. Otherwise the result
  is the tokenizer after the call together with either the exception thrown or the value
  returned; a reference parameter \<^verbatim>\<open>output\<close> is an argument and part of the value
  returned.\<close>

type_synonym 'a parser_result = "((GclException + 'a) \<times> Tokenizer) option"

definition throw :: "GclErrorID \<Rightarrow> string \<Rightarrow> Tokenizer \<Rightarrow> 'a parser_result" where
  "throw errorID_arg info_arg t = Some (Inl (GclException errorID_arg (span (m_token t)) info_arg), t)"

text \<open>\<^verbatim>\<open>token.kind == TokenKind::Punctuaction && token.data.punctuaction == p\<close>\<close>

definition is_punctuaction :: "Token \<Rightarrow> Punctuaction \<Rightarrow> bool" where
  "is_punctuaction tok p \<longleftrightarrow> kind tok = TokenKind_Punctuaction \<and> data tok = Token_Punctuaction p"

text \<open>The scalar branches of \<^verbatim>\<open>parseValue\<close>: the output has been assigned, then
  \<^verbatim>\<open>tokenizer.advance()\<close>, then \<^verbatim>\<open>return true\<close>.\<close>

definition advance_return :: "Value \<Rightarrow> Tokenizer \<Rightarrow> (bool \<times> Value) parser_result" where
  "advance_return output t =
     (case advance t of
        (Inl e, t') \<Rightarrow> Some (Inl e, t')
      | (Inr nonEof, t') \<Rightarrow> Some (Inr (True, output), t'))"

function (sequential) parseValue :: "nat \<Rightarrow> Value \<Rightarrow> Tokenizer \<Rightarrow> (bool \<times> Value) parser_result"
  and parseArray :: "nat \<Rightarrow> Array \<Rightarrow> Tokenizer \<Rightarrow> Array parser_result"
  and parseArray_loop :: "nat \<Rightarrow> Array \<Rightarrow> Tokenizer \<Rightarrow> Array parser_result"
  and parseDict :: "nat \<Rightarrow> Dict \<Rightarrow> Tokenizer \<Rightarrow> Dict parser_result"
  and parseDict_loop :: "nat \<Rightarrow> Dict \<Rightarrow> Tokenizer \<Rightarrow> Dict parser_result"
where
  "parseValue 0 output t = None"
| "parseValue (Suc n) output t =
     (case data (m_token t) of
        Token_Punctuaction p \<Rightarrow>
          if p = Lbrace then
            (case parseDict n [] t of
               None \<Rightarrow> None
             | Some (Inl e, t') \<Rightarrow> Some (Inl e, t')
             | Some (Inr d, t') \<Rightarrow> Some (Inr (True, Value_Dict d), t'))
          else if p = Lsqb then
            (case parseArray n [] t of
               None \<Rightarrow> None
             | Some (Inl e, t') \<Rightarrow> Some (Inl e, t')
             | Some (Inr a, t') \<Rightarrow> Some (Inr (True, Value_Array a), t'))
          else Some (Inr (True, output), t)
      | Token_String s \<Rightarrow> advance_return (Value_String s) t
      | Token_Int i \<Rightarrow> advance_return (Value_Int i) t
      | Token_Float f \<Rightarrow> advance_return (Value_Float f) t
      | Token_Identifier s \<Rightarrow>
          if s = ''true'' then advance_return (Value_Bool True) t
          else if s = ''false'' then advance_return (Value_Bool False) t
          else if s = ''null'' then advance_return Value_Null t
          else Some (Inr (False, output), t)
      | Token_Eof \<Rightarrow> Some (Inr (False, output), t))"
| "parseArray 0 output t = None"
| "parseArray (Suc n) output t =
     (case advance t of
        (Inl e, t1) \<Rightarrow> Some (Inl e, t1)
      | (Inr nonEof, t1) \<Rightarrow>
          (case parseArray_loop n output t1 of
             None \<Rightarrow> None
           | Some (Inl e, t2) \<Rightarrow> Some (Inl e, t2)
           | Some (Inr output', t2) \<Rightarrow>
               if \<not> is_punctuaction (m_token t2) Rsqb then
                 throw ExpectedPunctuaction
                   (''expected `]` but found `'' @ format_Token (m_token t2) @ ''`'') t2
               else
                 (case advance t2 of
                    (Inl e, t3) \<Rightarrow> Some (Inl e, t3)
                  | (Inr nonEof', t3) \<Rightarrow> Some (Inr output', t3))))"
| "parseArray_loop 0 output t = None"
| "parseArray_loop (Suc n) output t =
     (case parseValue n Value_Undefined t of
        None \<Rightarrow> None
      | Some (Inl e, t1) \<Rightarrow> Some (Inl e, t1)
      | Some (Inr (ok, val), t1) \<Rightarrow>
          if \<not> ok then
            throw ExpectedValue
              (''expected a value but found `'' @ format_Token (m_token t1) @ ''`'') t1
          else if \<not> is_punctuaction (m_token t1) Comma then
            (if is_punctuaction (m_token t1) Rsqb then Some (Inr (output @ [val]), t1)
             else throw ExpectedPunctuaction
                    (''expected `,` but found `'' @ format_Token (m_token t1) @ ''`'') t1)
          else
            (case advance t1 of
               (Inl e, t2) \<Rightarrow> Some (Inl e, t2)
             | (Inr nonEof, t2) \<Rightarrow> parseArray_loop n (output @ [val]) t2))"
| "parseDict 0 output t = None"
| "parseDict (Suc n) output t =
     (case advance t of
        (Inl e, t1) \<Rightarrow> Some (Inl e, t1)
      | (Inr nonEof, t1) \<Rightarrow>
          (case parseDict_loop n output t1 of
             None \<Rightarrow> None
           | Some (Inl e, t2) \<Rightarrow> Some (Inl e, t2)
           | Some (Inr output', t2) \<Rightarrow>
               if \<not> is_punctuaction (m_token t2) Rbrace then
                 throw ExpectedPunctuaction
                   (''expected `}` but found `'' @ format_Token (m_token t2) @ ''`'') t2
               else
                 (case advance t2 of
                    (Inl e, t3) \<Rightarrow> Some (Inl e, t3)
                  | (Inr nonEof', t3) \<Rightarrow> Some (Inr output', t3))))"
| "parseDict_loop 0 output t = None"
| "parseDict_loop (Suc n) output t =
     (case data (m_token t) of
        Token_Identifier identifier \<Rightarrow>
          (case advance t of
             (Inl e, t1) \<Rightarrow> Some (Inl e, t1)
           | (Inr nonEof, t1) \<Rightarrow>
               if \<not> is_punctuaction (m_token t1) Colon then
                 throw ExpectedPunctuaction
                   (''expected `:` but found `'' @ format_Token (m_token t1) @ ''`'') t1
               else
                 (case advance t1 of
                    (Inl e, t2) \<Rightarrow> Some (Inl e, t2)
                  | (Inr nonEof', t2) \<Rightarrow>
                      (case parseValue n Value_Undefined t2 of
                         None \<Rightarrow> None
                       | Some (Inl e, t3) \<Rightarrow> Some (Inl e, t3)
                       | Some (Inr (ok, val), t3) \<Rightarrow>
                           if \<not> ok then
                             throw ExpectedValue
                               (''expected a value but found `'' @ format_Token (m_token t3) @ ''`'') t3
                           else
                             (case insert_Dict (identifier, val) output of
                                (output', inserted) \<Rightarrow>
                                  if \<not> inserted then
                                    throw ExpectedPunctuaction
                                      (''key `'' @ identifier @ ''` already defined'') t3
                                  else if \<not> is_punctuaction (m_token t3) Comma then
                                    (if is_punctuaction (m_token t3) Rbrace then Some (Inr output', t3)
                                     else throw ExpectedPunctuaction
                                            (''expected `,` but found `'' @ format_Token (m_token t3) @ ''`'') t3)
                                  else
                                    (case advance t3 of
                                       (Inl e, t4) \<Rightarrow> Some (Inl e, t4)
                                     | (Inr nonEof'', t4) \<Rightarrow> parseDict_loop n output' t4)))))
      | _ \<Rightarrow> Some (Inr output, t))"
  by pat_completeness auto
termination
  by (relation "measure (\<lambda>x. case x of
        Inl (Inl (n, output, t)) \<Rightarrow> n
      | Inl (Inr (n, output, t)) \<Rightarrow> n
      | Inr (Inl (n, output, t)) \<Rightarrow> n
      | Inr (Inr (Inl (n, output, t))) \<Rightarrow> n
      | Inr (Inr (Inr (n, output, t))) \<Rightarrow> n)") simp_all

declare parseValue.simps [simp del] parseArray.simps [simp del] parseArray_loop.simps [simp del]
  parseDict.simps [simp del] parseDict_loop.simps [simp del]

text \<open>\<^verbatim>\<open>gcl::parse\<close>: a fresh parser, \<^verbatim>\<open>setText\<close>, one \<^verbatim>\<open>advance\<close>, then \<^verbatim>\<open>parseValue\<close>.
  \<open>parse_run\<close> keeps the tokenizer, \<open>parse\<close> is what the caller sees: the exception or
  the returned \<^verbatim>\<open>bool\<close> with the output. \<open>parse_text\<close> is the overload for a
  \<^verbatim>\<open>std::string_view\<close>.\<close>

definition parse_run :: "nat \<Rightarrow> Value \<Rightarrow> string \<Rightarrow> nat \<Rightarrow> (bool \<times> Value) parser_result" where
  "parse_run fuel output chars len =
     (case advance (setText Tokenizer_default chars len) of
        (Inl e, t) \<Rightarrow> Some (Inl e, t)
      | (Inr nonEof, t) \<Rightarrow> parseValue fuel output t)"

definition parse :: "nat \<Rightarrow> Value \<Rightarrow> string \<Rightarrow> nat \<Rightarrow> (GclException + bool \<times> Value) option" where
  "parse fuel output chars len = map_option fst (parse_run fuel output chars len)"

definition parse_text :: "nat \<Rightarrow> Value \<Rightarrow> string \<Rightarrow> (GclException + bool \<times> Value) option" where
  "parse_text fuel output text = parse fuel output text (length text)"

section \<open>Notions used in the proofs\<close>

text \<open>A relation between tokenizer states is closed under the steps of the tokenizer when
  it is reflexive and transitive and holds across \<open>advanceChar\<close> and across every update
  of the current token. Such a relation holds across every function of the tokenizer.\<close>

definition step_closed :: "(Tokenizer \<Rightarrow> Tokenizer \<Rightarrow> bool) \<Rightarrow> bool" where
  "step_closed R \<longleftrightarrow>
     (\<forall>t. R t t) \<and> (\<forall>a b c. R a b \<longrightarrow> R b c \<longrightarrow> R a c) \<and>
     (\<forall>t. R t (snd (advanceChar t))) \<and> (\<forall>t tok. R t (t\<lparr>m_token := tok\<rparr>))"

text \<open>What is left to parse: what is left to scan, plus one while the current token is not
  the end of the input.\<close>

definition unparsed :: "Tokenizer \<Rightarrow> nat" where
  "unparsed t = remaining t + (if kind (m_token t) = TokenKind_Eof then 0 else 1)"

text \<open>A family of relations between tokenizer states, one for calls that return and one for
  calls that throw, is closed under the steps of the parser when it holds across
  \<open>advance\<close> and composes. It then holds across every function of the parser.\<close>

definition parser_closed :: "(bool \<Rightarrow> Tokenizer \<Rightarrow> Tokenizer \<Rightarrow> bool) \<Rightarrow> bool" where
  "parser_closed Q \<longleftrightarrow>
     (\<forall>t. Q True t t) \<and>
     (\<forall>k a b c. Q True a b \<longrightarrow> Q k b c \<longrightarrow> Q k a c) \<and>
     (\<forall>a b. Q True a b \<longrightarrow> Q False a b) \<and>
     (\<forall>t r t'. advance t = (r, t') \<longrightarrow> Q (\<not> isl r) t t')"

text \<open>\<open>hoare m P\<close>: if the call \<open>m\<close> ends, by returning or by throwing, then \<open>P\<close> holds
  of its result and of the tokenizer it leaves. The rules below take a function body apart
  along its case distinctions.\<close>

definition hoare :: "'a parser_result \<Rightarrow> ((GclException + 'a) \<Rightarrow> Tokenizer \<Rightarrow> bool) \<Rightarrow> bool" where
  "hoare m P \<longleftrightarrow> (\<forall>r t'. m = Some (r, t') \<longrightarrow> P r t')"

text \<open>\<open>res_le m m'\<close>: whatever the call \<open>m\<close> gives, the call \<open>m'\<close> gives too.\<close>

definition res_le :: "'a option \<Rightarrow> 'a option \<Rightarrow> bool" where
  "res_le m m' \<longleftrightarrow> (\<forall>r. m = Some r \<longrightarrow> m' = Some r)"

text \<open>\<open>defined m\<close>: the call \<open>m\<close> ends within the bound it was given.\<close>

definition defined :: "'a option \<Rightarrow> bool" where
  "defined m \<longleftrightarrow> m \<noteq> None"

definition reads_kept :: "Tokenizer \<Rightarrow> Tokenizer \<Rightarrow> bool" where
  "reads_kept a b \<longleftrightarrow> m_length b = m_length a \<and>
     ((\<forall>i \<in> set (reads a). i < m_length a) \<longrightarrow> (\<forall>i \<in> set (reads b). i < m_length b))"

text \<open>Every dict in a value, the value itself included, has its keys in strictly increasing
  order.\<close>

fun dicts_sorted :: "Value \<Rightarrow> bool" where
  "dicts_sorted (Value_Array a) = (\<forall>v \<in> set a. dicts_sorted v)"
| "dicts_sorted (Value_Dict d) =
     (sorted_wrt (<) (map fst d) \<and> (\<forall>v \<in> set (map snd d). dicts_sorted v))"
| "dicts_sorted v = True"

text \<open>The magnitude of a run of digits as the claim describes it: from 0, repeatedly
  \<open>value = value * base + digit\<close>, in \<^verbatim>\<open>uintptr_t\<close>.\<close>

definition magnitude :: "int \<Rightarrow> string \<Rightarrow> uintptr_t" where
  "magnitude base ds = foldl (\<lambda>val c. val * of_int base + of_int (charToDigit c base)) 0 ds"

text \<open>The tokenizer is at index \<open>i\<close> of the buffer \<open>cs\<close>, bound with its whole length.\<close>

definition at_index :: "string \<Rightarrow> nat \<Rightarrow> Tokenizer \<Rightarrow> bool" where
  "at_index cs i t \<longleftrightarrow>
     m_chars t = cs \<and> m_length t = length cs \<and> m_index t = i \<and> i < length cs \<and> m_char t = cs ! i"

text \<open>Two places are separate when they are not the same object and neither object owns
  the other.\<close>

definition separate :: "place \<Rightarrow> place \<Rightarrow> bool" where
  "separate r1 r2 \<longleftrightarrow> r1 \<noteq> r2 \<and> \<not> owns r1 r2 \<and> \<not> owns r2 r1"

section \<open>Lemmas\<close>

subsection \<open>The tokenizer\<close>

lemma step_closed_refl: "step_closed R \<Longrightarrow> R t t"
  by (simp add: step_closed_def)

lemma step_closed_trans: "step_closed R \<Longrightarrow> R a b \<Longrightarrow> R b c \<Longrightarrow> R a c"
  unfolding step_closed_def by blast

lemma step_closed_advanceChar: "step_closed R \<Longrightarrow> R t (snd (advanceChar t))"
  by (simp add: step_closed_def)

lemma step_closed_token: "step_closed R \<Longrightarrow> R t (t\<lparr>m_token := tok\<rparr>)"
  by (simp add: step_closed_def)

lemma step_closed_advanceChar_after:
  "step_closed R \<Longrightarrow> R a b \<Longrightarrow> R a (snd (advanceChar b))"
  using step_closed_trans step_closed_advanceChar by blast

lemma step_closed_token_after:
  "step_closed R \<Longrightarrow> R a b \<Longrightarrow> R a (b\<lparr>m_token := tok\<rparr>)"
  using step_closed_trans step_closed_token by blast

lemma skipWhitespace_closed: "step_closed R \<Longrightarrow> R a t \<Longrightarrow> R a (skipWhitespace t)"
proof (induction t rule: skipWhitespace.induct)
  case (1 t)
  show ?case
  proof (cases "m_char t = CHR '' '' \<or> m_char t = CHR 0x09 \<or> m_char t = CHR 0x0A")
    case True
    then have "skipWhitespace t = skipWhitespace (snd (advanceChar t))"
      by (subst skipWhitespace.simps) simp
    with 1 True step_closed_advanceChar_after [of R a t] show ?thesis by simp
  next
    case False
    then have "skipWhitespace t = t"
      by (subst skipWhitespace.simps) simp
    with 1 show ?thesis by simp
  qed
qed

lemma skipComment_loop_closed: "step_closed R \<Longrightarrow> R a t \<Longrightarrow> R a (skipComment_loop t)"
proof (induction t rule: skipComment_loop.induct)
  case (1 t)
  have nxt: "R a (snd (advanceChar t))"
    using 1 step_closed_advanceChar_after by blast
  show ?case
  proof (cases "m_char t \<noteq> CHR 0x0A")
    case True
    show ?thesis
    proof (cases "fst (advanceChar t)")
      case True
      with \<open>m_char t \<noteq> CHR 0x0A\<close> have "skipComment_loop t = skipComment_loop (snd (advanceChar t))"
        by (subst skipComment_loop.simps) simp
      with 1 True \<open>m_char t \<noteq> CHR 0x0A\<close> nxt show ?thesis by simp
    next
      case False
      with \<open>m_char t \<noteq> CHR 0x0A\<close> have "skipComment_loop t = snd (advanceChar t)"
        by (subst skipComment_loop.simps) simp
      with nxt show ?thesis by simp
    qed
  next
    case False
    then have "skipComment_loop t = t"
      by (subst skipComment_loop.simps) simp
    with 1 show ?thesis by simp
  qed
qed

lemma skipComment_closed: "step_closed R \<Longrightarrow> R a t \<Longrightarrow> R a (skipComment t)"
  by (simp add: skipComment_def skipComment_loop_closed step_closed_advanceChar_after)

lemma skipComments_closed: "step_closed R \<Longrightarrow> R a t \<Longrightarrow> R a (skipComments t)"
proof (induction t rule: skipComments.induct)
  case (1 t)
  show ?case
  proof (cases "m_char t = CHR ''#''")
    case True
    then have "skipComments t = skipComments (skipWhitespace (skipComment t))"
      by (subst skipComments.simps) simp
    moreover have "R a (skipWhitespace (skipComment t))"
      using 1(2,3) by (simp add: skipWhitespace_closed skipComment_closed)
    ultimately show ?thesis using 1 True by simp
  next
    case False
    then have "skipComments t = t"
      by (subst skipComments.simps) simp
    with 1 show ?thesis by simp
  qed
qed

lemma readIdentifier_loop_closed:
  "step_closed R \<Longrightarrow> R a t \<Longrightarrow> R a (snd (readIdentifier_loop acc t))"
proof (induction acc t rule: readIdentifier_loop.induct)
  case (1 acc t)
  let ?t' = "snd (advanceChar t)"
  have nxt: "R a ?t'"
    using 1(2,3) step_closed_advanceChar_after by blast
  show ?case
  proof (cases "fst (advanceChar t) \<and> (isAlnum (m_char ?t') \<or> m_char ?t' = CHR ''_'')")
    case True
    then have "readIdentifier_loop acc t = readIdentifier_loop (acc @ [m_char ?t']) ?t'"
      by (subst readIdentifier_loop.simps) (simp add: Let_def)
    moreover have "R a (snd (readIdentifier_loop (acc @ [m_char ?t']) ?t'))"
      using 1(1) [OF refl refl True 1(2) nxt] .
    ultimately show ?thesis by simp
  next
    case False
    then have "readIdentifier_loop acc t = (acc, ?t')"
      by (subst readIdentifier_loop.simps) (auto simp add: Let_def)
    with nxt show ?thesis by simp
  qed
qed

lemma readNumber_loop_closed:
  "step_closed R \<Longrightarrow> R a t \<Longrightarrow> R a (snd (readNumber_loop base val t))"
proof (induction base val t rule: readNumber_loop.induct)
  case (1 base val t)
  let ?t' = "snd (advanceChar t)"
  have nxt: "R a ?t'"
    using 1(2,3) step_closed_advanceChar_after by blast
  show ?case
  proof (cases "fst (advanceChar t) \<and> isDigit (m_char ?t') base")
    case True
    then have "readNumber_loop base val t =
        readNumber_loop base (val * of_int base + of_int (charToDigit (m_char ?t') base)) ?t'"
      by (subst readNumber_loop.simps) (simp add: Let_def)
    moreover have "R a (snd (readNumber_loop base
        (val * of_int base + of_int (charToDigit (m_char ?t') base)) ?t'))"
      using 1(1) [OF refl refl True 1(2) nxt] .
    ultimately show ?thesis by simp
  next
    case False
    then have "readNumber_loop base val t = (val, ?t')"
      by (subst readNumber_loop.simps) (auto simp add: Let_def)
    with nxt show ?thesis by simp
  qed
qed

lemma readNumber_skip_closed: "step_closed R \<Longrightarrow> R a t \<Longrightarrow> R a (readNumber_skip t)"
proof (induction t rule: readNumber_skip.induct)
  case (1 t)
  have nxt: "R a (snd (advanceChar t))"
    using 1(2,3) step_closed_advanceChar_after by blast
  show ?case
  proof (cases "isAlnum (m_char t)")
    case True
    then have "readNumber_skip t = readNumber_skip (snd (advanceChar t))"
      by (subst readNumber_skip.simps) simp
    with 1(1) [OF True 1(2) nxt] show ?thesis by simp
  next
    case False
    then have "readNumber_skip t = t"
      by (subst readNumber_skip.simps) simp
    with 1(3) show ?thesis by simp
  qed
qed

lemma readString_loop_closed:
  "step_closed R \<Longrightarrow> R a t \<Longrightarrow> R a (snd (readString_loop str t))"
proof (induction "remaining t" arbitrary: str t rule: less_induct)
  case less
  let ?t1 = "snd (advanceChar t)"
  let ?t2 = "snd (advanceChar ?t1)"
  have n1: "R a ?t1"
    using less(2,3) step_closed_advanceChar_after by blast
  then have n2: "R a ?t2"
    using less(2) step_closed_advanceChar_after by blast
  have IH1: "R a (snd (readString_loop s ?t1))" if "fst (advanceChar t)" for s
    using less(1) [OF advanceChar_True_remaining [OF that] less(2) n1] .
  have IH2: "R a (snd (readString_loop s ?t2))" if "fst (advanceChar t)" for s
    using less(1) [OF advanceChar_twice_remaining [OF that] less(2) n2] .
  show ?case
    by (subst readString_loop.simps) (simp add: Let_def n1 n2 IH1 IH2)
qed

lemma readIdentifier_closed: "step_closed R \<Longrightarrow> R a t \<Longrightarrow> R a (snd (readIdentifier t))"
  by (simp add: readIdentifier_def split_beta readIdentifier_loop_closed step_closed_token_after)

lemma readNumber_digits_closed:
  "step_closed R \<Longrightarrow> R a t \<Longrightarrow> R a (snd (readNumber_digits isNeg base t))"
  by (simp add: readNumber_digits_def split_beta Let_def readNumber_loop_closed
      readNumber_skip_closed step_closed_token_after step_closed_advanceChar_after)

lemma readNumber_prefixed_closed:
  "step_closed R \<Longrightarrow> R a t \<Longrightarrow> R a (snd (readNumber_prefixed isNeg base t))"
  by (simp add: readNumber_prefixed_def Let_def readNumber_digits_closed
      step_closed_advanceChar_after)

lemma readNumber_sign_closed:
  "step_closed R \<Longrightarrow> R a t \<Longrightarrow> R a (snd (readNumber_sign t))"
  by (simp add: readNumber_sign_def step_closed_advanceChar_after)

lemma readNumber_closed: "step_closed R \<Longrightarrow> R a t \<Longrightarrow> R a (snd (readNumber t))"
proof -
  assume R: "step_closed R" and a: "R a t"
  obtain r t1 where s: "readNumber_sign t = (r, t1)" by (cases "readNumber_sign t")
  have t1: "R a t1"
    using readNumber_sign_closed [OF R a] s by simp
  then have t2: "R a (snd (advanceChar t1))"
    using R step_closed_advanceChar_after by blast
  show ?thesis
    using R a t1 t2 s
    by (cases r)
       (simp_all add: readNumber_def readNumber_magnitude_def Let_def readNumber_digits_closed readNumber_prefixed_closed
          step_closed_token_after)
qed

lemma readPunctuaction_closed: "step_closed R \<Longrightarrow> R a t \<Longrightarrow> R a (snd (readPunctuaction t))"
  by (simp add: readPunctuaction_def Let_def step_closed_token_after step_closed_advanceChar_after)

lemma readString_closed: "step_closed R \<Longrightarrow> R a t \<Longrightarrow> R a (snd (readString t))"
proof -
  assume R: "step_closed R" and a: "R a t"
  obtain r t1 where s: "readString_loop [] t = (r, t1)" by (cases "readString_loop [] t")
  have t1: "R a t1"
    using readString_loop_closed [OF R a, of "[]"] s by simp
  then have t2: "R a (snd (advanceChar t1))"
    using R step_closed_advanceChar_after by blast
  show ?thesis
    using R a t1 t2 s
    by (cases r) (simp_all add: readString_def Let_def step_closed_token_after)
qed

lemma readMisc_closed: "step_closed R \<Longrightarrow> R a t \<Longrightarrow> R a (snd (readMisc t))"
  by (simp add: readMisc_def step_closed_token_after)

lemma read_methods_closed:
  assumes "step_closed R"
    and "\<forall>m \<in> set ms. \<forall>a t. R a t \<longrightarrow> R a (snd (m t))"
    and "R a t"
  shows "R a (snd (read_methods ms t))"
  using assms
proof (induction ms arbitrary: t)
  case Nil
  then show ?case by simp
next
  case (Cons m ms)
  obtain r t' where m: "m t = (r, t')" by (cases "m t")
  have t': "R a t'"
    using Cons.prems(2,3) m by fastforce
  have "R a (snd (read_methods ms t'))"
    using Cons.IH [OF Cons.prems(1) _ t'] Cons.prems(2) by simp
  with t' m show ?case
    by (cases r) (simp_all split: bool.splits)
qed

lemma READ_METHODS_closed:
  "step_closed R \<Longrightarrow> R a t \<Longrightarrow> R a (snd (read_methods READ_METHODS t))"
  by (rule read_methods_closed)
     (auto simp: READ_METHODS_def no_throw_def split_beta readIdentifier_closed readNumber_closed
        readPunctuaction_closed readString_closed readMisc_closed)

lemma advance_closed: "step_closed R \<Longrightarrow> R a t \<Longrightarrow> R a (snd (advance t))"
proof -
  assume R: "step_closed R" and a: "R a t"
  let ?t1 = "skipComments (skipWhitespace t)"
  let ?t3 = "?t1\<lparr>m_token := (Token_reset (m_token ?t1))\<lparr>span :=
                 \<lparr>beginLineNumber = m_lineNumber ?t1, beginColumnNumber = m_columNumber ?t1,
                  endLineNumber = m_lineNumber ?t1, endColumnNumber = m_columNumber ?t1\<rparr>\<rparr>\<rparr>"
  have "R a ?t1"
    using R a by (simp add: skipComments_closed skipWhitespace_closed)
  then have "R a ?t3"
    using R step_closed_token_after by blast
  then have r: "R a (snd (read_methods READ_METHODS ?t3))"
    using R READ_METHODS_closed by blast
  obtain r t4 where m: "read_methods READ_METHODS ?t3 = (r, t4)"
    by (cases "read_methods READ_METHODS ?t3")
  show ?thesis
    using r m R by (cases r) (simp_all add: advance_def Let_def step_closed_token_after)
qed

lemma remaining_closed: "step_closed (\<lambda>a b. remaining b \<le> remaining a)"
  unfolding step_closed_def
  by (auto simp: advanceChar_remaining_le) (simp add: remaining_def)

lemma remaining_token [simp]: "remaining (t\<lparr>m_token := tok\<rparr>) = remaining t"
  by (simp add: remaining_def)

lemma isAlpha_not_NUL: "isAlpha c \<Longrightarrow> c \<noteq> CHR 0x00"
  by (auto simp: isAlpha_def char_int_def)

lemma isDigit_not_NUL: "isDigit c base \<Longrightarrow> c \<noteq> CHR 0x00"
  by (auto simp: isDigit_def char_int_def split: if_splits)

lemma readIdentifier_loop_remaining:
  "remaining (snd (readIdentifier_loop acc t)) \<le> remaining (snd (advanceChar t))"
  using readIdentifier_loop_closed [OF remaining_closed, of "snd (advanceChar t)" "snd (advanceChar t)"]
  by (subst readIdentifier_loop.simps) (simp add: Let_def)

lemma readNumber_loop_remaining:
  "remaining (snd (readNumber_loop base val t)) \<le> remaining (snd (advanceChar t))"
  using readNumber_loop_closed [OF remaining_closed, of "snd (advanceChar t)" "snd (advanceChar t)"]
  by (subst readNumber_loop.simps) (simp add: Let_def)

lemma readString_loop_remaining:
  "remaining (snd (readString_loop str t)) \<le> remaining (snd (advanceChar t))"
proof -
  let ?t1 = "snd (advanceChar t)"
  have le: "remaining (snd (advanceChar ?t1)) \<le> remaining ?t1"
    by (rule advanceChar_remaining_le)
  have one: "remaining (snd (readString_loop s ?t1)) \<le> remaining ?t1" for s
    by (rule readString_loop_closed [OF remaining_closed]) simp
  have two: "remaining (snd (readString_loop s (snd (advanceChar ?t1)))) \<le> remaining ?t1" for s
    by (rule readString_loop_closed [OF remaining_closed]) (rule le)
  show ?thesis
    by (subst readString_loop.simps) (simp add: Let_def one two le)
qed

lemma readIdentifier_progress:
  "readIdentifier t = (b, t') \<Longrightarrow> (if b then remaining t' < remaining t else t' = t)"
  using readIdentifier_loop_remaining [of "[m_char t]" t]
    advanceChar_nonzero_remaining [of t] isAlpha_not_NUL [of "m_char t"]
  by (auto simp: readIdentifier_def split_beta split: if_splits)

lemma readPunctuaction_progress:
  "readPunctuaction t = (b, t') \<Longrightarrow> (if b then remaining t' < remaining t else t' = t)"
  using advanceChar_nonzero_remaining [of t]
  by (auto simp: readPunctuaction_def Let_def split: if_splits)

lemma readString_progress:
  "readString t = (Inr b, t') \<Longrightarrow> (if b then remaining t' < remaining t else t' = t)"
  using readString_loop_remaining [of "[]" t] advanceChar_nonzero_remaining [of t]
    advanceChar_remaining_le [of "snd (readString_loop [] t)"]
  by (cases "readString_loop [] t")
     (auto simp: readString_def Let_def split: if_splits sum.splits)

lemma readMisc_progress:
  "readMisc t = (Inr b, t') \<Longrightarrow> b \<and> t' = t\<lparr>m_token := (m_token t)\<lparr>data := Token_Eof\<rparr>\<rparr>"
  by (auto simp: readMisc_def split: if_splits)

lemma readNumber_digits_remaining:
  "readNumber_digits isNeg base t = (Inr b, t') \<Longrightarrow>
     b \<and> remaining t' \<le> remaining (snd (advanceChar t))"
  using readNumber_loop_remaining [of base "of_int (charToDigit (m_char t) base)" t]
  by (auto simp: readNumber_digits_def split_beta Let_def split: if_splits)

lemma readNumber_prefixed_remaining:
  "readNumber_prefixed isNeg base t = (Inr b, t') \<Longrightarrow> b \<and> remaining t' \<le> remaining t"
  using readNumber_digits_remaining [of isNeg base "snd (advanceChar t)" b t']
    advanceChar_remaining_le [of t] advanceChar_remaining_le [of "snd (advanceChar t)"]
  by (auto simp: readNumber_prefixed_def Let_def split: if_splits)

lemma readNumber_progress:
  assumes "readNumber t = (Inr b, t')"
  shows "if b then remaining t' < remaining t else t' = t"
proof (cases "\<not> isDigit (m_char t) 10 \<and> m_char t \<noteq> CHR ''-'' \<and> m_char t \<noteq> CHR ''+''")
  case True
  with assms show ?thesis by (simp add: readNumber_def)
next
  case False
  then have nz: "m_char t \<noteq> CHR 0x00"
    using isDigit_not_NUL [of "m_char t" 10] by auto
  have strict: "remaining (snd (advanceChar t)) < remaining t"
    using nz by (rule advanceChar_nonzero_remaining)
  define t1 where "t1 = (if isDigit (m_char t) 10 then t else snd (advanceChar t))"
  define isNeg where "isNeg \<longleftrightarrow> \<not> isDigit (m_char t) 10 \<and> m_char t = CHR ''-''"
  define t2 where "t2 = snd (advanceChar t1)"
  have sign: "readNumber_sign t = (Inr isNeg, t1)"
    using False by (auto simp: readNumber_sign_def t1_def isNeg_def)
  have eq: "readNumber t =
      (if m_char t1 = CHR ''0'' then
         (if \<not> isDigit (m_char t2) 10 then
            (if m_char t2 = CHR ''b'' \<or> m_char t2 = CHR ''B'' then readNumber_prefixed isNeg 2 t2
             else if m_char t2 = CHR ''x'' \<or> m_char t2 = CHR ''X'' then readNumber_prefixed isNeg 16 t2
             else (Inr True, t2\<lparr>m_token := (m_token t2)\<lparr>data := Token_Int 0\<rparr>\<rparr>))
          else readNumber_digits isNeg 10 t2)
       else readNumber_digits isNeg 10 t1)"
    unfolding readNumber_def readNumber_magnitude_def t2_def
    by (subst if_not_P [OF False]) (simp add: sign Let_def)
  have t2_le: "remaining t2 \<le> remaining (snd (advanceChar t1))"
    by (simp add: t2_def)
  have rest: "b \<and> remaining t' \<le> remaining (snd (advanceChar t1))"
  proof (cases "m_char t1 = CHR ''0''")
    case True
    note zero = True
    show ?thesis
    proof (cases "isDigit (m_char t2) 10")
      case True
      with zero eq assms have "readNumber_digits isNeg 10 t2 = (Inr b, t')" by simp
      from readNumber_digits_remaining [OF this] advanceChar_remaining_le [of t2] t2_le
      show ?thesis by simp
    next
      case False
      note nodigit = False
      show ?thesis
      proof (cases "m_char t2 = CHR ''b'' \<or> m_char t2 = CHR ''B''")
        case True
        with zero nodigit eq assms have "readNumber_prefixed isNeg 2 t2 = (Inr b, t')" by simp
        from readNumber_prefixed_remaining [OF this] t2_le show ?thesis by simp
      next
        case False
        note nob = False
        show ?thesis
        proof (cases "m_char t2 = CHR ''x'' \<or> m_char t2 = CHR ''X''")
          case True
          with zero nodigit nob eq assms have "readNumber_prefixed isNeg 16 t2 = (Inr b, t')"
            by simp
          from readNumber_prefixed_remaining [OF this] t2_le show ?thesis by simp
        next
          case False
          with zero nodigit nob eq assms
          have "(Inr b, t') = (Inr True, t2\<lparr>m_token := (m_token t2)\<lparr>data := Token_Int 0\<rparr>\<rparr>)"
            by simp
          then have "b" and "t' = t2\<lparr>m_token := (m_token t2)\<lparr>data := Token_Int 0\<rparr>\<rparr>"
            by simp_all
          with t2_le show ?thesis by simp
        qed
      qed
    qed
  next
    case False
    with eq assms have "readNumber_digits isNeg 10 t1 = (Inr b, t')" by simp
    then show ?thesis using readNumber_digits_remaining by blast
  qed
  have "remaining (snd (advanceChar t1)) < remaining t"
    using strict advanceChar_remaining_le [of "snd (advanceChar t)"]
    by (auto simp: t1_def)
  with rest show ?thesis by simp
qed

lemma READ_METHODS_progress:
  assumes "read_methods READ_METHODS t = (Inr u, t')"
  shows "remaining t' < remaining t \<or> t' = t\<lparr>m_token := (m_token t)\<lparr>data := Token_Eof\<rparr>\<rparr>"
proof -
  obtain b1 s1 where r1: "readIdentifier t = (b1, s1)" by (cases "readIdentifier t")
  show ?thesis
  proof (cases b1)
    case True
    with assms r1 readIdentifier_progress [OF r1] show ?thesis
      by (simp add: READ_METHODS_def no_throw_def)
  next
    case False
    with readIdentifier_progress [OF r1] have s1: "s1 = t" by simp
    obtain x2 s2 where r2: "readNumber t = (x2, s2)" by (cases "readNumber t")
    from assms r1 False s1 r2 obtain b2 where x2: "x2 = Inr b2"
      by (cases x2) (simp_all add: READ_METHODS_def no_throw_def)
    show ?thesis
    proof (cases b2)
      case True
      with assms r1 False s1 r2 x2 readNumber_progress [of t b2 s2] show ?thesis
        by (simp add: READ_METHODS_def no_throw_def)
    next
      case b2: False
      with r2 x2 readNumber_progress [of t b2 s2] have s2: "s2 = t" by simp
      obtain b3 s3 where r3: "readPunctuaction t = (b3, s3)" by (cases "readPunctuaction t")
      show ?thesis
      proof (cases b3)
        case True
        with assms r1 False s1 r2 x2 b2 s2 r3 readPunctuaction_progress [OF r3] show ?thesis
          by (simp add: READ_METHODS_def no_throw_def)
      next
        case b3: False
        with readPunctuaction_progress [OF r3] have s3: "s3 = t" by simp
        obtain x4 s4 where r4: "readString t = (x4, s4)" by (cases "readString t")
        from assms r1 False s1 r2 x2 b2 s2 r3 b3 s3 r4 obtain b4 where x4: "x4 = Inr b4"
          by (cases x4) (simp_all add: READ_METHODS_def no_throw_def)
        show ?thesis
        proof (cases b4)
          case True
          with assms r1 False s1 r2 x2 b2 s2 r3 b3 s3 r4 x4 readString_progress [of t b4 s4]
          show ?thesis
            by (simp add: READ_METHODS_def no_throw_def)
        next
          case b4: False
          with r4 x4 readString_progress [of t b4 s4] have s4: "s4 = t" by simp
          obtain x5 s5 where r5: "readMisc t = (x5, s5)" by (cases "readMisc t")
          from assms r1 False s1 r2 x2 b2 s2 r3 b3 s3 r4 x4 b4 s4 r5
          obtain b5 where x5: "x5 = Inr b5"
            by (cases x5) (simp_all add: READ_METHODS_def no_throw_def)
          from readMisc_progress [of t b5 s5] r5 x5
          have b5: "b5" and s5: "s5 = t\<lparr>m_token := (m_token t)\<lparr>data := Token_Eof\<rparr>\<rparr>"
            by simp_all
          with assms r1 False s1 r2 x2 b2 s2 r3 b3 s3 r4 x4 b4 s4 r5 x5 show ?thesis
            by (simp add: READ_METHODS_def no_throw_def)
        qed
      qed
    qed
  qed
qed

lemma advance_progress:
  assumes "advance t = (Inr b, t')"
  shows "unparsed t' \<le> remaining t"
proof -
  let ?t1 = "skipComments (skipWhitespace t)"
  let ?t2 = "?t1\<lparr>m_token := Token_reset (m_token ?t1)\<rparr>"
  let ?t3 = "?t2\<lparr>m_token := (m_token ?t2)\<lparr>span :=
                 \<lparr>beginLineNumber = m_lineNumber ?t2, beginColumnNumber = m_columNumber ?t2,
                  endLineNumber = m_lineNumber ?t2, endColumnNumber = m_columNumber ?t2\<rparr>\<rparr>\<rparr>"
  have "remaining (skipWhitespace t) \<le> remaining t"
    by (rule skipWhitespace_closed [OF remaining_closed]) simp
  then have "remaining ?t1 \<le> remaining t"
    by (rule skipComments_closed [OF remaining_closed])
  then have le: "remaining ?t3 \<le> remaining t"
    by simp
  obtain r t4 where m: "read_methods READ_METHODS ?t3 = (r, t4)"
    by (cases "read_methods READ_METHODS ?t3")
  from assms m obtain u where r: "r = Inr u"
    by (cases r) (simp_all add: advance_def Let_def)
  from assms m r have t': "t' = t4\<lparr>m_token := (m_token t4)\<lparr>span := (span (m_token t4))
          \<lparr>endLineNumber := m_lineNumber t4, endColumnNumber := m_columNumber t4\<rparr>\<rparr>\<rparr>"
    by (simp add: advance_def Let_def)
  from READ_METHODS_progress [of ?t3 u t4] m r
  consider "remaining t4 < remaining ?t3"
    | "t4 = ?t3\<lparr>m_token := (m_token ?t3)\<lparr>data := Token_Eof\<rparr>\<rparr>"
    by blast
  then show ?thesis
  proof cases
    case 1
    with le t' show ?thesis by (simp add: unparsed_def)
  next
    case 2
    with le t' show ?thesis by (simp add: unparsed_def kind_def)
  qed
qed

lemma advance_unparsed_le: "advance t = (Inr b, t') \<Longrightarrow> unparsed t' \<le> unparsed t"
  using advance_progress [of t b t'] by (simp add: unparsed_def)

lemma advance_unparsed_less:
  "advance t = (Inr b, t') \<Longrightarrow> kind (m_token t) \<noteq> TokenKind_Eof \<Longrightarrow> unparsed t' < unparsed t"
  using advance_progress [of t b t'] by (simp add: unparsed_def)

subsection \<open>The parser\<close>

lemma parser_closed_advance:
  "parser_closed Q \<Longrightarrow> Q True a t \<Longrightarrow> advance t = (r, t') \<Longrightarrow> Q (\<not> isl r) a t'"
  unfolding parser_closed_def by blast

lemma parser_closed_throw: "parser_closed Q \<Longrightarrow> Q True a t \<Longrightarrow> Q False a t"
  unfolding parser_closed_def by blast

lemma hoareD: "hoare m P \<Longrightarrow> m = Some (r, t') \<Longrightarrow> P r t'"
  by (simp add: hoare_def)

lemma hoare_None: "hoare None P"
  by (simp add: hoare_def)

lemma hoare_Some: "P r t \<Longrightarrow> hoare (Some (r, t)) P"
  by (simp add: hoare_def)

lemma hoare_if: "(c \<Longrightarrow> hoare x P) \<Longrightarrow> (\<not> c \<Longrightarrow> hoare y P) \<Longrightarrow> hoare (if c then x else y) P"
  by simp

lemma hoare_case_option:
  "(m = None \<Longrightarrow> hoare x P) \<Longrightarrow> (\<And>y. m = Some y \<Longrightarrow> hoare (f y) P) \<Longrightarrow>
   hoare (case m of None \<Rightarrow> x | Some y \<Rightarrow> f y) P"
  by (cases m) simp_all

lemma hoare_case_prod:
  "(\<And>u v. p = (u, v) \<Longrightarrow> hoare (f u v) P) \<Longrightarrow> hoare (case p of (u, v) \<Rightarrow> f u v) P"
  by (cases p) simp

lemma hoare_case_sum:
  "(\<And>e. s = Inl e \<Longrightarrow> hoare (f e) P) \<Longrightarrow> (\<And>x. s = Inr x \<Longrightarrow> hoare (g x) P) \<Longrightarrow>
   hoare (case s of Inl e \<Rightarrow> f e | Inr x \<Rightarrow> g x) P"
  by (cases s) simp_all

lemma hoare_case_TokenData:
  "(d = Token_Eof \<Longrightarrow> hoare f1 P) \<Longrightarrow> (\<And>i. d = Token_Int i \<Longrightarrow> hoare (f2 i) P) \<Longrightarrow>
   (\<And>x. d = Token_Float x \<Longrightarrow> hoare (f3 x) P) \<Longrightarrow>
   (\<And>s. d = Token_Identifier s \<Longrightarrow> hoare (f4 s) P) \<Longrightarrow>
   (\<And>s. d = Token_String s \<Longrightarrow> hoare (f5 s) P) \<Longrightarrow>
   (\<And>p. d = Token_Punctuaction p \<Longrightarrow> hoare (f6 p) P) \<Longrightarrow>
   hoare (case d of Token_Eof \<Rightarrow> f1 | Token_Int i \<Rightarrow> f2 i | Token_Float x \<Rightarrow> f3 x
          | Token_Identifier s \<Rightarrow> f4 s | Token_String s \<Rightarrow> f5 s | Token_Punctuaction p \<Rightarrow> f6 p) P"
  by (cases d) simp_all

lemmas hoare_rules = hoare_None hoare_Some hoare_if hoare_case_option hoare_case_prod
  hoare_case_sum hoare_case_TokenData

lemma parser_steps:
  assumes Q: "parser_closed Q"
  shows "(\<forall>out t a. Q True a t \<longrightarrow> hoare (parseValue n out t) (\<lambda>r t'. Q (\<not> isl r) a t')) \<and>
         (\<forall>out t a. Q True a t \<longrightarrow> hoare (parseArray n out t) (\<lambda>r t'. Q (\<not> isl r) a t')) \<and>
         (\<forall>out t a. Q True a t \<longrightarrow> hoare (parseArray_loop n out t) (\<lambda>r t'. Q (\<not> isl r) a t')) \<and>
         (\<forall>out t a. Q True a t \<longrightarrow> hoare (parseDict n out t) (\<lambda>r t'. Q (\<not> isl r) a t')) \<and>
         (\<forall>out t a. Q True a t \<longrightarrow> hoare (parseDict_loop n out t) (\<lambda>r t'. Q (\<not> isl r) a t'))"
proof (induction n)
  case 0
  show ?case by (simp add: hoare_def parseValue.simps parseArray.simps parseArray_loop.simps
      parseDict.simps parseDict_loop.simps)
next
  case (Suc n)
  note V = Suc [THEN conjunct1, rule_format]
  note A = Suc [THEN conjunct2, THEN conjunct1, rule_format]
  note L = Suc [THEN conjunct2, THEN conjunct2, THEN conjunct1, rule_format]
  note D = Suc [THEN conjunct2, THEN conjunct2, THEN conjunct2, THEN conjunct1, rule_format]
  note DL = Suc [THEN conjunct2, THEN conjunct2, THEN conjunct2, THEN conjunct2, rule_format]
  note adv = parser_closed_advance [OF Q]
  note thr = parser_closed_throw [OF Q]
  have adv_ok: "Q True a t'" if "Q True a t" "advance t = (Inr x, t')" for t a x t'
    using adv [OF that] by simp
  have adv_err: "Q False a t'" if "Q True a t" "advance t = (Inl e, t')" for t a e t'
    using adv [OF that] by simp
  have V_ok: "Q True a t'" if "Q True a t" "parseValue n out t = Some (Inr x, t')" for out t a x t'
    using hoareD [OF V [OF that(1)] that(2)] by simp
  have V_err: "Q False a t'" if "Q True a t" "parseValue n out t = Some (Inl e, t')" for out t a e t'
    using hoareD [OF V [OF that(1)] that(2)] by simp
  have A_ok: "Q True a t'" if "Q True a t" "parseArray n out t = Some (Inr x, t')" for out t a x t'
    using hoareD [OF A [OF that(1)] that(2)] by simp
  have A_err: "Q False a t'" if "Q True a t" "parseArray n out t = Some (Inl e, t')" for out t a e t'
    using hoareD [OF A [OF that(1)] that(2)] by simp
  have L_ok: "Q True a t'" if "Q True a t" "parseArray_loop n out t = Some (Inr x, t')" for out t a x t'
    using hoareD [OF L [OF that(1)] that(2)] by simp
  have L_err: "Q False a t'" if "Q True a t" "parseArray_loop n out t = Some (Inl e, t')" for out t a e t'
    using hoareD [OF L [OF that(1)] that(2)] by simp
  have D_ok: "Q True a t'" if "Q True a t" "parseDict n out t = Some (Inr x, t')" for out t a x t'
    using hoareD [OF D [OF that(1)] that(2)] by simp
  have D_err: "Q False a t'" if "Q True a t" "parseDict n out t = Some (Inl e, t')" for out t a e t'
    using hoareD [OF D [OF that(1)] that(2)] by simp
  have DL_ok: "Q True a t'" if "Q True a t" "parseDict_loop n out t = Some (Inr x, t')" for out t a x t'
    using hoareD [OF DL [OF that(1)] that(2)] by simp
  have DL_err: "Q False a t'" if "Q True a t" "parseDict_loop n out t = Some (Inl e, t')" for out t a e t'
    using hoareD [OF DL [OF that(1)] that(2)] by simp
  note chain = adv_ok adv_err V_ok V_err A_ok A_err L_ok L_err D_ok D_err DL_ok DL_err
  have 1: "hoare (parseValue (Suc n) out t) (\<lambda>r t'. Q (\<not> isl r) a t')" if "Q True a t" for out t a
    using that unfolding parseValue.simps advance_return_def
    apply (intro hoare_rules)
    apply simp_all
    apply (((drule (1) chain)+)?, (assumption | erule thr))+
    done
  have 2: "hoare (parseArray (Suc n) out t) (\<lambda>r t'. Q (\<not> isl r) a t')" if "Q True a t" for out t a
    using that unfolding parseArray.simps throw_def
    apply (intro hoare_rules)
    apply simp_all
    apply (((drule (1) chain)+)?, (assumption | erule thr))+
    done
  have 3: "hoare (parseArray_loop (Suc n) out t) (\<lambda>r t'. Q (\<not> isl r) a t')" if "Q True a t" for out t a
    using that unfolding parseArray_loop.simps throw_def
    apply (intro hoare_rules)
    apply simp_all
    apply (((drule (1) chain)+)?, (assumption | erule thr | (rule L, assumption)))+
    done
  have 4: "hoare (parseDict (Suc n) out t) (\<lambda>r t'. Q (\<not> isl r) a t')" if "Q True a t" for out t a
    using that unfolding parseDict.simps throw_def
    apply (intro hoare_rules)
    apply simp_all
    apply (((drule (1) chain)+)?, (assumption | erule thr))+
    done
  have 5: "hoare (parseDict_loop (Suc n) out t) (\<lambda>r t'. Q (\<not> isl r) a t')" if "Q True a t" for out t a
    using that unfolding parseDict_loop.simps throw_def
    apply (intro hoare_rules)
    apply simp_all
    apply (((drule (1) chain)+)?, (assumption | erule thr | (rule DL, assumption)))+
    done
  show ?case
    using 1 2 3 4 5 by blast
qed

lemma res_le_refl: "res_le m m"
  by (simp add: res_le_def)

lemma res_le_case_option:
  "res_le m m' \<Longrightarrow> (\<And>y. res_le (f y) (f' y)) \<Longrightarrow>
   res_le (case m of None \<Rightarrow> None | Some y \<Rightarrow> f y) (case m' of None \<Rightarrow> None | Some y \<Rightarrow> f' y)"
  by (cases m) (auto simp: res_le_def)

lemma res_le_case_prod:
  "(\<And>u v. res_le (f u v) (f' u v)) \<Longrightarrow>
   res_le (case p of (u, v) \<Rightarrow> f u v) (case p of (u, v) \<Rightarrow> f' u v)"
  by (cases p) simp

lemma res_le_case_sum:
  "(\<And>e. res_le (f e) (f' e)) \<Longrightarrow> (\<And>x. res_le (g x) (g' x)) \<Longrightarrow>
   res_le (case s of Inl e \<Rightarrow> f e | Inr x \<Rightarrow> g x) (case s of Inl e \<Rightarrow> f' e | Inr x \<Rightarrow> g' x)"
  by (cases s) simp_all

lemma res_le_if:
  "(c \<Longrightarrow> res_le x x') \<Longrightarrow> (\<not> c \<Longrightarrow> res_le y y') \<Longrightarrow>
   res_le (if c then x else y) (if c then x' else y')"
  by simp

lemma res_le_case_TokenData:
  "res_le f1 g1 \<Longrightarrow> (\<And>i. res_le (f2 i) (g2 i)) \<Longrightarrow> (\<And>x. res_le (f3 x) (g3 x)) \<Longrightarrow>
   (\<And>s. res_le (f4 s) (g4 s)) \<Longrightarrow> (\<And>s. res_le (f5 s) (g5 s)) \<Longrightarrow>
   (\<And>p. res_le (f6 p) (g6 p)) \<Longrightarrow>
   res_le (case d of Token_Eof \<Rightarrow> f1 | Token_Int i \<Rightarrow> f2 i | Token_Float x \<Rightarrow> f3 x
           | Token_Identifier s \<Rightarrow> f4 s | Token_String s \<Rightarrow> f5 s | Token_Punctuaction p \<Rightarrow> f6 p)
          (case d of Token_Eof \<Rightarrow> g1 | Token_Int i \<Rightarrow> g2 i | Token_Float x \<Rightarrow> g3 x
           | Token_Identifier s \<Rightarrow> g4 s | Token_String s \<Rightarrow> g5 s | Token_Punctuaction p \<Rightarrow> g6 p)"
  by (cases d) simp_all

lemmas res_le_rules = res_le_case_option res_le_case_prod res_le_case_sum res_le_if
  res_le_case_TokenData

lemma fuel_Suc:
  "(\<forall>out t. res_le (parseValue n out t) (parseValue (Suc n) out t)) \<and>
   (\<forall>out t. res_le (parseArray n out t) (parseArray (Suc n) out t)) \<and>
   (\<forall>out t. res_le (parseArray_loop n out t) (parseArray_loop (Suc n) out t)) \<and>
   (\<forall>out t. res_le (parseDict n out t) (parseDict (Suc n) out t)) \<and>
   (\<forall>out t. res_le (parseDict_loop n out t) (parseDict_loop (Suc n) out t))"
proof (induction n)
  case 0
  show ?case
    by (simp add: res_le_def parseValue.simps parseArray.simps parseArray_loop.simps
        parseDict.simps parseDict_loop.simps)
next
  case (Suc n)
  note IH = Suc [THEN conjunct1, rule_format]
    Suc [THEN conjunct2, THEN conjunct1, rule_format]
    Suc [THEN conjunct2, THEN conjunct2, THEN conjunct1, rule_format]
    Suc [THEN conjunct2, THEN conjunct2, THEN conjunct2, THEN conjunct1, rule_format]
    Suc [THEN conjunct2, THEN conjunct2, THEN conjunct2, THEN conjunct2, rule_format]
  have 1: "res_le (parseValue (Suc n) out t) (parseValue (Suc (Suc n)) out t)" for out t
    apply (subst parseValue.simps, subst parseValue.simps)
    apply (rule res_le_refl | rule IH | rule res_le_rules)+
    done
  have 2: "res_le (parseArray (Suc n) out t) (parseArray (Suc (Suc n)) out t)" for out t
    apply (subst parseArray.simps, subst parseArray.simps)
    apply (rule res_le_refl | rule IH | rule res_le_rules)+
    done
  have 3: "res_le (parseArray_loop (Suc n) out t) (parseArray_loop (Suc (Suc n)) out t)" for out t
    apply (subst parseArray_loop.simps, subst parseArray_loop.simps)
    apply (rule res_le_refl | rule IH | rule res_le_rules)+
    done
  have 4: "res_le (parseDict (Suc n) out t) (parseDict (Suc (Suc n)) out t)" for out t
    apply (subst parseDict.simps, subst parseDict.simps)
    apply (rule res_le_refl | rule IH | rule res_le_rules)+
    done
  have 5: "res_le (parseDict_loop (Suc n) out t) (parseDict_loop (Suc (Suc n)) out t)" for out t
    apply (subst parseDict_loop.simps, subst parseDict_loop.simps)
    apply (rule res_le_refl | rule IH | rule res_le_rules)+
    done
  show ?case
    using 1 2 3 4 5 by blast
qed

lemma parseValue_fuel_mono:
  "parseValue n out t = Some r \<Longrightarrow> n \<le> m \<Longrightarrow> parseValue m out t = Some r"
proof (induction m)
  case 0
  then show ?case by simp
next
  case (Suc m)
  show ?case
  proof (cases "n = Suc m")
    case True
    with Suc.prems show ?thesis by simp
  next
    case False
    with Suc have "parseValue m out t = Some r" by simp
    moreover have "res_le (parseValue m out t) (parseValue (Suc m) out t)"
      using fuel_Suc [of m] by blast
    ultimately show ?thesis
      unfolding res_le_def by blast
  qed
qed

lemma parse_run_fuel_mono:
  assumes "parse_run n out chars len = Some r" and "n \<le> m"
  shows "parse_run m out chars len = Some r"
proof (cases "advance (setText Tokenizer_default chars len)")
  case (Pair x t)
  show ?thesis
  proof (cases x)
    case (Inl e)
    with assms Pair show ?thesis by (simp add: parse_run_def)
  next
    case (Inr b)
    with assms Pair have "parseValue n out t = Some r" by (simp add: parse_run_def)
    from parseValue_fuel_mono [OF this assms(2)] Pair Inr show ?thesis
      by (simp add: parse_run_def)
  qed
qed

lemma parse_fuel_mono:
  assumes "parse n out chars len = Some r" and "n \<le> m"
  shows "parse m out chars len = Some r"
proof -
  from assms(1) obtain r' where r': "parse_run n out chars len = Some r'" and r: "r = fst r'"
    by (auto simp: parse_def)
  from parse_run_fuel_mono [OF r' assms(2)] r show ?thesis
    by (simp add: parse_def)
qed

lemma parse_text_fuel_mono:
  "parse_text n out text = Some r \<Longrightarrow> n \<le> m \<Longrightarrow> parse_text m out text = Some r"
  unfolding parse_text_def by (rule parse_fuel_mono)

lemma parse_123: "parse_text 1 out ''123'' = Some (Inr (True, Value_Int 123))"
  by code_simp

lemma parse_minus_123: "parse_text 1 out ''-123'' = Some (Inr (True, Value_Int (- 123)))"
  by code_simp

lemma parse_0x1F: "parse_text 1 out ''0x1F'' = Some (Inr (True, Value_Int 31))"
  by code_simp

lemma parse_0b101: "parse_text 1 out ''0b101'' = Some (Inr (True, Value_Int 5))"
  by code_simp

lemma parse_0: "parse_text 1 out ''0'' = Some (Inr (True, Value_Int 0))"
  by code_simp

lemma parse_array_123:
  "parse_text 6 out ''[1,2,3]'' = Some (Inr (True, Value_Array [Value_Int 1, Value_Int 2, Value_Int 3]))"
  by code_simp

lemma parse_array_empty:
  "parse_text 4 out ''[]'' = Some (Inr (True, Value_Array [Value_Undefined]))"
  by code_simp

lemma parse_dict_empty: "parse_text 3 out ''{}'' = Some (Inr (True, Value_Dict []))"
  by code_simp

lemma parse_dict_ba:
  "parse_text 5 out ''{b:2,a:1}'' =
     Some (Inr (True, Value_Dict [(''a'', Value_Int 1), (''b'', Value_Int 2)]))"
  by code_simp

lemma parse_dict_aa:
  "parse_text 5 out ''{a:1,a:2}'' =
     Some (Inl \<lparr>errorID = None,
                exn_span = \<lparr>beginLineNumber = 1, beginColumnNumber = 8,
                             endLineNumber = 1, endColumnNumber = 8\<rparr>,
                info = ''key `a` already defined''\<rparr>)"
  by code_simp

lemma parse_rsqb: "parse_text 1 out '']'' = Some (Inr (True, out))"
  by code_simp

text \<open>At the end of the input, and on an identifier other than
  \<^verbatim>\<open>true\<close>, \<^verbatim>\<open>false\<close> and \<^verbatim>\<open>null\<close>, \<^verbatim>\<open>parseValue\<close> returns false and throws nothing.\<close>

lemma parseValue_Eof:
  "data (m_token t) = Token_Eof \<Longrightarrow> parseValue (Suc n) out t = Some (Inr (False, out), t)"
  by (simp add: parseValue.simps)

lemma parseValue_other_identifier:
  "data (m_token t) = Token_Identifier s \<Longrightarrow> s \<noteq> ''true'' \<Longrightarrow> s \<noteq> ''false'' \<Longrightarrow>
   s \<noteq> ''null'' \<Longrightarrow> parseValue (Suc n) out t = Some (Inr (False, out), t)"
  by (simp add: parseValue.simps)

subsection \<open>Termination of the parser\<close>

lemma unparsed_closed:
  "parser_closed (\<lambda>k a b. k \<longrightarrow> unparsed b \<le> unparsed a)"
proof -
  have adv: "unparsed t' \<le> unparsed t" if "advance t = (r, t')" "\<not> isl r" for t r t'
    using that advance_unparsed_le by (cases r) auto
  have tr: "k \<longrightarrow> unparsed c \<le> unparsed a"
    if "True \<longrightarrow> unparsed b \<le> unparsed a" "k \<longrightarrow> unparsed c \<le> unparsed b" for k a b c
    using that by auto
  show ?thesis
    unfolding parser_closed_def
    apply (intro conjI allI impI)
       apply simp
      apply simp
     apply simp
    apply (erule (1) adv)
    done
qed

lemma parseValue_unparsed:
  "parseValue n out t = Some (Inr x, t') \<Longrightarrow> unparsed t' \<le> unparsed t"
  using parser_steps [OF unparsed_closed, of n, THEN conjunct1, rule_format, of t t out]
  by (auto dest: hoareD)

lemma advance_unparsed:
  "advance t = (Inr b, t') \<Longrightarrow>
     unparsed t' \<le> unparsed t \<and> (kind (m_token t) \<noteq> TokenKind_Eof \<longrightarrow> unparsed t' < unparsed t)"
  using advance_unparsed_le advance_unparsed_less by blast

lemma is_punctuaction_not_Eof: "is_punctuaction tok p \<Longrightarrow> kind tok \<noteq> TokenKind_Eof"
  by (simp add: is_punctuaction_def)

lemma not_Eof_unparsed: "kind (m_token t) \<noteq> TokenKind_Eof \<Longrightarrow> 0 < unparsed t"
  by (simp add: unparsed_def)

lemma defined_Some: "defined (Some x)"
  by (simp add: defined_def)

lemma defined_throw: "defined (throw e i t)"
  by (simp add: defined_def throw_def)

lemma defined_advance_return: "defined (advance_return v t)"
  by (simp add: defined_def advance_return_def split: prod.splits sum.splits)

lemma defined_if: "(c \<Longrightarrow> defined x) \<Longrightarrow> (\<not> c \<Longrightarrow> defined y) \<Longrightarrow> defined (if c then x else y)"
  by simp

lemma defined_case_option:
  "defined m \<Longrightarrow> (\<And>y. m = Some y \<Longrightarrow> defined (f y)) \<Longrightarrow>
   defined (case m of None \<Rightarrow> None | Some y \<Rightarrow> f y)"
  by (cases m) (simp_all add: defined_def)

lemma defined_case_prod:
  "(\<And>u v. p = (u, v) \<Longrightarrow> defined (f u v)) \<Longrightarrow> defined (case p of (u, v) \<Rightarrow> f u v)"
  by (cases p) simp

lemma defined_case_sum:
  "(\<And>e. s = Inl e \<Longrightarrow> defined (f e)) \<Longrightarrow> (\<And>x. s = Inr x \<Longrightarrow> defined (g x)) \<Longrightarrow>
   defined (case s of Inl e \<Rightarrow> f e | Inr x \<Rightarrow> g x)"
  by (cases s) simp_all

lemma defined_case_TokenData:
  "(d = Token_Eof \<Longrightarrow> defined f1) \<Longrightarrow> (\<And>i. d = Token_Int i \<Longrightarrow> defined (f2 i)) \<Longrightarrow>
   (\<And>x. d = Token_Float x \<Longrightarrow> defined (f3 x)) \<Longrightarrow>
   (\<And>s. d = Token_Identifier s \<Longrightarrow> defined (f4 s)) \<Longrightarrow>
   (\<And>s. d = Token_String s \<Longrightarrow> defined (f5 s)) \<Longrightarrow>
   (\<And>p. d = Token_Punctuaction p \<Longrightarrow> defined (f6 p)) \<Longrightarrow>
   defined (case d of Token_Eof \<Rightarrow> f1 | Token_Int i \<Rightarrow> f2 i | Token_Float x \<Rightarrow> f3 x
            | Token_Identifier s \<Rightarrow> f4 s | Token_String s \<Rightarrow> f5 s | Token_Punctuaction p \<Rightarrow> f6 p)"
  by (cases d) simp_all

lemmas defined_rules = defined_Some defined_throw defined_advance_return defined_if
  defined_case_prod defined_case_sum defined_case_TokenData

lemma enough_fuel:
  "(\<forall>out t. 3 * unparsed t + 1 \<le> n \<longrightarrow> defined (parseValue n out t)) \<and>
   (\<forall>out t. kind (m_token t) \<noteq> TokenKind_Eof \<longrightarrow> 3 * unparsed t \<le> n \<longrightarrow>
      defined (parseArray n out t)) \<and>
   (\<forall>out t. 3 * unparsed t + 2 \<le> n \<longrightarrow> defined (parseArray_loop n out t)) \<and>
   (\<forall>out t. kind (m_token t) \<noteq> TokenKind_Eof \<longrightarrow> 3 * unparsed t \<le> n \<longrightarrow>
      defined (parseDict n out t)) \<and>
   (\<forall>out t. 3 * unparsed t + 2 \<le> n \<longrightarrow> defined (parseDict_loop n out t))"
proof (induction n)
  case 0
  show ?case
    by (auto dest: not_Eof_unparsed)
next
  case (Suc n)
  note V = Suc [THEN conjunct1, rule_format]
  note A = Suc [THEN conjunct2, THEN conjunct1, rule_format]
  note L = Suc [THEN conjunct2, THEN conjunct2, THEN conjunct1, rule_format]
  note D = Suc [THEN conjunct2, THEN conjunct2, THEN conjunct2, THEN conjunct1, rule_format]
  note DL = Suc [THEN conjunct2, THEN conjunct2, THEN conjunct2, THEN conjunct2, rule_format]
  have 1: "defined (parseValue (Suc n) out t)" if "3 * unparsed t + 1 \<le> Suc n" for out t
    apply (insert that)
    apply (subst parseValue.simps)
    apply (rule defined_rules | rule defined_case_option | (rule D A, simp add: kind_def, simp))+
    done
  have 2: "defined (parseArray (Suc n) out t)"
    if "kind (m_token t) \<noteq> TokenKind_Eof" "3 * unparsed t \<le> Suc n" for out t
    apply (insert that)
    apply (subst parseArray.simps)
    apply (rule defined_rules | rule defined_case_option
        | (rule L, auto dest!: advance_unparsed)[1])+
    done
  have 3: "defined (parseArray_loop (Suc n) out t)" if "3 * unparsed t + 2 \<le> Suc n" for out t
    apply (insert that)
    apply (subst parseArray_loop.simps)
    apply (rule defined_rules | rule defined_case_option
        | (rule V L, auto dest!: advance_unparsed parseValue_unparsed is_punctuaction_not_Eof)[1])+
    done
  have 4: "defined (parseDict (Suc n) out t)"
    if "kind (m_token t) \<noteq> TokenKind_Eof" "3 * unparsed t \<le> Suc n" for out t
    apply (insert that)
    apply (subst parseDict.simps)
    apply (rule defined_rules | rule defined_case_option
        | (rule DL, auto dest!: advance_unparsed)[1])+
    done
  have 5: "defined (parseDict_loop (Suc n) out t)" if "3 * unparsed t + 2 \<le> Suc n" for out t
    apply (insert that)
    apply (subst parseDict_loop.simps)
    apply (rule defined_rules | rule defined_case_option
        | (rule V DL, auto simp: kind_def dest!: advance_unparsed parseValue_unparsed
             is_punctuaction_not_Eof)[1])+
    done
  show ?case
    using 1 2 3 4 5 by blast
qed

lemma setText_remaining: "remaining (setText t chars len) \<le> 2 * len + 1"
  by (simp add: setText_def remaining_def)

lemma parse_run_defined:
  assumes "6 * len + 4 \<le> fuel"
  shows "defined (parse_run fuel out chars len)"
proof (cases "advance (setText Tokenizer_default chars len)")
  case (Pair x t)
  show ?thesis
  proof (cases x)
    case (Inl e)
    with Pair show ?thesis by (simp add: parse_run_def defined_def)
  next
    case (Inr b)
    with Pair have "unparsed t \<le> remaining (setText Tokenizer_default chars len)"
      using advance_progress by blast
    with setText_remaining [of Tokenizer_default chars len] assms
    have "3 * unparsed t + 1 \<le> fuel" by linarith
    then have "defined (parseValue fuel out t)"
      using enough_fuel [of fuel] by blast
    with Pair Inr show ?thesis by (simp add: parse_run_def)
  qed
qed

subsection \<open>Reads of the buffer\<close>

lemma reads_closed: "step_closed reads_kept"
  unfolding step_closed_def
proof (intro conjI allI impI)
  show "reads_kept t t" for t
    by (simp add: reads_kept_def)
  show "reads_kept a c" if "reads_kept a b" "reads_kept b c" for a b c
    using that unfolding reads_kept_def by auto
  show "reads_kept t (snd (advanceChar t))" for t
    by (auto simp: reads_kept_def advanceChar_def Let_def)
  show "reads_kept t (t\<lparr>m_token := tok\<rparr>)" for t tok
    by (simp add: reads_kept_def)
qed

lemma step_closed_parser_closed:
  assumes "step_closed R"
  shows "parser_closed (\<lambda>k. R)"
  unfolding parser_closed_def
proof (intro conjI allI impI)
  show "R t t" for t
    using assms by (rule step_closed_refl)
  show "R a c" if "R a b" "R b c" for a b c
    using assms that by (rule step_closed_trans)
  show "R a b" if "R a b" for a b
    by (rule that)
  show "R t t'" if "advance t = (r, t')" for t r t'
  proof -
    have "R t (snd (advance t))"
      using assms by (rule advance_closed) (rule step_closed_refl [OF assms])
    then show ?thesis unfolding that snd_conv .
  qed
qed

lemma parse_run_reads:
  assumes "parse_run fuel out chars len = Some (r, t')"
  shows "\<forall>i \<in> set (reads t'). i < len"
proof -
  let ?t0 = "setText Tokenizer_default chars len"
  have t0: "m_length ?t0 = len" "\<forall>i \<in> set (reads ?t0). i < m_length ?t0"
    by (simp_all add: setText_def Tokenizer_default_def)
  obtain x t1 where adv: "advance ?t0 = (x, t1)" by (cases "advance ?t0")
  have "reads_kept ?t0 (snd (advance ?t0))"
    by (rule advance_closed [OF reads_closed]) (simp add: reads_kept_def)
  then have t1: "reads_kept ?t0 t1" unfolding adv snd_conv .
  have "reads_kept ?t0 t'"
  proof (cases x)
    case (Inl e)
    with assms adv have "t' = t1" by (simp add: parse_run_def)
    with t1 show ?thesis by simp
  next
    case (Inr b)
    with assms adv have "parseValue fuel out t1 = Some (r, t')" by (simp add: parse_run_def)
    moreover have "hoare (parseValue fuel out t1) (\<lambda>r. reads_kept ?t0)"
      using parser_steps [OF step_closed_parser_closed [OF reads_closed], of fuel] t1 by blast
    ultimately show ?thesis by (rule hoareD [rotated])
  qed
  with t0 show ?thesis unfolding reads_kept_def by metis
qed

lemma read_methods_at_NUL:
  assumes "m_char t = CHR 0x00"
  shows "read_methods READ_METHODS t = (Inr (), t\<lparr>m_token := (m_token t)\<lparr>data := Token_Eof\<rparr>\<rparr>)"
proof -
  have 1: "readIdentifier t = (False, t)"
    using assms by (simp add: readIdentifier_def isAlpha_def char_int_def)
  have 2: "readNumber t = (Inr False, t)"
    using assms by (simp add: readNumber_def isDigit_def char_int_def)
  have 3: "readPunctuaction t = (False, t)"
    using assms by (simp add: readPunctuaction_def)
  have 4: "readString t = (Inr False, t)"
    using assms by (simp add: readString_def)
  have 5: "readMisc t = (Inr True, t\<lparr>m_token := (m_token t)\<lparr>data := Token_Eof\<rparr>\<rparr>)"
    using assms by (simp add: readMisc_def)
  show ?thesis
    by (simp add: READ_METHODS_def no_throw_def 1 2 3 4 5)
qed

lemma advance_at_NUL:
  assumes "m_char t = CHR 0x00"
  shows "advance t = (Inr False, t\<lparr>m_token := (m_token t)\<lparr>data := Token_Eof, span :=
      \<lparr>beginLineNumber = m_lineNumber t, beginColumnNumber = m_columNumber t,
       endLineNumber = m_lineNumber t, endColumnNumber = m_columNumber t\<rparr>\<rparr>\<rparr>)"
proof -
  have ws: "skipWhitespace t = t"
    using assms by (subst skipWhitespace.simps) simp
  have cs: "skipComments t = t"
    using assms by (subst skipComments.simps) simp
  let ?t3 = "t\<lparr>m_token := (m_token t)\<lparr>data := Token_Eof, span :=
      \<lparr>beginLineNumber = m_lineNumber t, beginColumnNumber = m_columNumber t,
       endLineNumber = m_lineNumber t, endColumnNumber = m_columNumber t\<rparr>\<rparr>\<rparr>"
  have "m_char ?t3 = CHR 0x00"
    using assms by simp
  from read_methods_at_NUL [OF this]
  have rm: "read_methods READ_METHODS ?t3 = (Inr (), ?t3)"
    by simp
  show ?thesis
    unfolding advance_def ws cs Let_def
    by (simp add: Token_reset_def rm kind_def)
qed

lemma parse_run_empty:
  "parse_run (Suc n) out chars 0 =
     Some (Inr (False, out), (setText Tokenizer_default chars 0)\<lparr>m_token :=
       \<lparr>span = \<lparr>beginLineNumber = 1, beginColumnNumber = 0, endLineNumber = 1, endColumnNumber = 0\<rparr>,
        data = Token_Eof\<rparr>\<rparr>)"
proof -
  have "m_char (setText Tokenizer_default chars 0) = CHR 0x00"
    by (simp add: setText_def)
  from advance_at_NUL [OF this] show ?thesis
    by (simp add: parse_run_def parseValue.simps)
       (simp add: setText_def Tokenizer_default_def Token_default_def Token_reset_def)
qed

lemma parse_run_empty_reads:
  "map_option (\<lambda>p. reads (snd p)) (parse_run (Suc n) out chars 0) = Some []"
  by (simp add: parse_run_empty) (simp add: setText_def Tokenizer_default_def)

subsection \<open>Order of the keys\<close>

lemma insert_Dict_Cons:
  "fst (insert_Dict (k, v) ((k', v') # d)) =
     (if k < k' then (k, v) # (k', v') # d
      else if k' < k then (k', v') # fst (insert_Dict (k, v) d)
      else (k', v') # d)"
  by (simp split: prod.splits)

lemma insert_Dict_keys:
  "set (map fst (fst (insert_Dict (k, v) d))) = insert k (set (map fst d))"
proof (induction d)
  case Nil
  show ?case by simp
next
  case (Cons e d)
  obtain k' v' where e: "e = (k', v')" by (cases e)
  have "\<not> k < k' \<Longrightarrow> \<not> k' < k \<Longrightarrow> k = k'"
    by auto
  with Cons show ?case
    unfolding e insert_Dict_Cons by auto
qed

lemma insert_Dict_values:
  "set (map snd (fst (insert_Dict (k, v) d))) \<subseteq> insert v (set (map snd d))"
proof (induction d)
  case Nil
  show ?case by simp
next
  case (Cons e d)
  obtain k' v' where e: "e = (k', v')" by (cases e)
  from Cons show ?case
    unfolding e insert_Dict_Cons by auto
qed

lemma insert_Dict_sorted:
  "sorted_wrt (<) (map fst d) \<Longrightarrow> sorted_wrt (<) (map fst (fst (insert_Dict (k, v) d)))"
proof (induction d)
  case Nil
  then show ?case by simp
next
  case (Cons e d)
  obtain k' v' where e: "e = (k', v')" by (cases e)
  have IH: "sorted_wrt (<) (map fst (fst (insert_Dict (k, v) d)))"
    using Cons by simp
  have above: "\<forall>x \<in> set (map fst (fst (insert_Dict (k, v) d))). k' < x" if "k' < k"
    unfolding insert_Dict_keys using Cons.prems e that by auto
  show ?case
    unfolding e insert_Dict_Cons using Cons.prems e IH above by auto
qed

lemma insert_Dict_dicts_sorted:
  assumes "dicts_sorted (Value_Dict d)" and "dicts_sorted v"
    and "insert_Dict (k, v) d = (d', inserted)"
  shows "dicts_sorted (Value_Dict d')"
proof -
  have d': "d' = fst (insert_Dict (k, v) d)"
    using assms(3) by simp
  have "\<forall>x \<in> insert v (set (map snd d)). dicts_sorted x"
    using assms(1,2) by simp
  with insert_Dict_values [of k v d] have "\<forall>x \<in> set (map snd d'). dicts_sorted x"
    unfolding d' by blast
  moreover have "sorted_wrt (<) (map fst d')"
    using assms(1) insert_Dict_sorted [of d k v] unfolding d' by simp
  ultimately show ?thesis by simp
qed

lemma dicts_sorted_steps:
  "(\<forall>out t. dicts_sorted out \<longrightarrow>
      hoare (parseValue n out t) (\<lambda>r t'. \<forall>b v. r = Inr (b, v) \<longrightarrow> dicts_sorted v)) \<and>
   (\<forall>out t. dicts_sorted (Value_Array out) \<longrightarrow>
      hoare (parseArray n out t) (\<lambda>r t'. \<forall>a. r = Inr a \<longrightarrow> dicts_sorted (Value_Array a))) \<and>
   (\<forall>out t. dicts_sorted (Value_Array out) \<longrightarrow>
      hoare (parseArray_loop n out t) (\<lambda>r t'. \<forall>a. r = Inr a \<longrightarrow> dicts_sorted (Value_Array a))) \<and>
   (\<forall>out t. dicts_sorted (Value_Dict out) \<longrightarrow>
      hoare (parseDict n out t) (\<lambda>r t'. \<forall>d. r = Inr d \<longrightarrow> dicts_sorted (Value_Dict d))) \<and>
   (\<forall>out t. dicts_sorted (Value_Dict out) \<longrightarrow>
      hoare (parseDict_loop n out t) (\<lambda>r t'. \<forall>d. r = Inr d \<longrightarrow> dicts_sorted (Value_Dict d)))"
proof (induction n)
  case 0
  show ?case
    by (simp add: hoare_def parseValue.simps parseArray.simps parseArray_loop.simps
        parseDict.simps parseDict_loop.simps)
next
  case (Suc n)
  note V = Suc [THEN conjunct1, rule_format]
  note A = Suc [THEN conjunct2, THEN conjunct1, rule_format]
  note L = Suc [THEN conjunct2, THEN conjunct2, THEN conjunct1, rule_format]
  note D = Suc [THEN conjunct2, THEN conjunct2, THEN conjunct2, THEN conjunct1, rule_format]
  note DL = Suc [THEN conjunct2, THEN conjunct2, THEN conjunct2, THEN conjunct2, rule_format]
  have V': "dicts_sorted v" if "parseValue n Value_Undefined t = Some (Inr (b, v), t')" for t b v t'
    using hoareD [OF V, OF _ that] by simp
  have A': "dicts_sorted (Value_Array a)" if "parseArray n [] t = Some (Inr a, t')" for t a t'
    using hoareD [OF A, OF _ that] by simp
  have L': "dicts_sorted (Value_Array a)"
    if "parseArray_loop n out t = Some (Inr a, t')" "dicts_sorted (Value_Array out)" for out t a t'
    using hoareD [OF L, OF that(2,1)] by simp
  have D': "dicts_sorted (Value_Dict d)" if "parseDict n [] t = Some (Inr d, t')" for t d t'
    using hoareD [OF D, OF _ that] by simp
  have DL': "dicts_sorted (Value_Dict d)"
    if "parseDict_loop n out t = Some (Inr d, t')" "dicts_sorted (Value_Dict out)" for out t d t'
    using hoareD [OF DL, OF that(2,1)] by simp
  have app: "dicts_sorted (Value_Array (out @ [v]))"
    if "dicts_sorted (Value_Array out)" "dicts_sorted v" for out v
    using that by simp
  note ins = insert_Dict_dicts_sorted
  have 1: "hoare (parseValue (Suc n) out t) (\<lambda>r t'. \<forall>b v. r = Inr (b, v) \<longrightarrow> dicts_sorted v)"
    if "dicts_sorted out" for out t
    apply (insert that)
    apply (subst parseValue.simps)
    apply (unfold advance_return_def)
    apply (intro hoare_rules)
    apply (simp_all del: dicts_sorted.simps(1,2))
    apply (blast intro: A' D')+
    done
  have 2: "hoare (parseArray (Suc n) out t) (\<lambda>r t'. \<forall>a. r = Inr a \<longrightarrow> dicts_sorted (Value_Array a))"
    if "dicts_sorted (Value_Array out)" for out t
    apply (insert that)
    apply (subst parseArray.simps)
    apply (unfold throw_def)
    apply (intro hoare_rules)
    apply (simp_all del: dicts_sorted.simps(1,2))
    apply (blast intro: L')+
    done
  have 3: "hoare (parseArray_loop (Suc n) out t) (\<lambda>r t'. \<forall>a. r = Inr a \<longrightarrow> dicts_sorted (Value_Array a))"
    if "dicts_sorted (Value_Array out)" for out t
    apply (insert that)
    apply (subst parseArray_loop.simps)
    apply (unfold throw_def)
    apply (intro hoare_rules)
    apply (simp_all del: dicts_sorted.simps(1,2))
    apply (blast intro: L app V')+
    done
  have 4: "hoare (parseDict (Suc n) out t) (\<lambda>r t'. \<forall>d. r = Inr d \<longrightarrow> dicts_sorted (Value_Dict d))"
    if "dicts_sorted (Value_Dict out)" for out t
    apply (insert that)
    apply (subst parseDict.simps)
    apply (unfold throw_def)
    apply (intro hoare_rules)
    apply (simp_all del: dicts_sorted.simps(1,2))
    apply (blast intro: DL')+
    done
  have 5: "hoare (parseDict_loop (Suc n) out t) (\<lambda>r t'. \<forall>d. r = Inr d \<longrightarrow> dicts_sorted (Value_Dict d))"
    if "dicts_sorted (Value_Dict out)" for out t
    apply (insert that)
    apply (subst parseDict_loop.simps)
    apply (unfold throw_def)
    apply (intro hoare_rules)
    apply (simp_all del: dicts_sorted.simps(1,2))
    apply (blast intro: DL ins V')+
    done
  show ?case
    using 1 2 3 4 5 by blast
qed

lemma parse_dicts_sorted:
  assumes "dicts_sorted out" and "parse fuel out chars len = Some (Inr (b, v))"
  shows "dicts_sorted v"
proof -
  from assms(2) obtain t' where run: "parse_run fuel out chars len = Some (Inr (b, v), t')"
    by (auto simp: parse_def)
  obtain x t1 where adv: "advance (setText Tokenizer_default chars len) = (x, t1)"
    by (cases "advance (setText Tokenizer_default chars len)")
  from run adv have "parseValue fuel out t1 = Some (Inr (b, v), t')"
    by (cases x) (simp_all add: parse_run_def)
  moreover have "hoare (parseValue fuel out t1) (\<lambda>r t'. \<forall>b v. r = Inr (b, v) \<longrightarrow> dicts_sorted v)"
    using dicts_sorted_steps [of fuel] assms(1) by blast
  ultimately show ?thesis
    by (auto dest: hoareD)
qed

subsection \<open>Integer literals\<close>

lemma at_index_token [simp]: "at_index cs i (t\<lparr>m_token := tok\<rparr>) = at_index cs i t"
  by (simp add: at_index_def)

lemma advanceChar_inside:
  assumes "at_index cs i t" and "Suc i < length cs"
  shows "fst (advanceChar t)" and "at_index cs (Suc i) (snd (advanceChar t))"
    and "m_token (snd (advanceChar t)) = m_token t"
  using assms by (auto simp: at_index_def advanceChar_def Let_def)

lemma advanceChar_last:
  assumes "at_index cs i t" and "Suc i = length cs"
  shows "\<not> fst (advanceChar t)" and "m_char (snd (advanceChar t)) = CHR 0x00"
    and "m_token (snd (advanceChar t)) = m_token t"
  using assms by (auto simp: at_index_def advanceChar_def Let_def)

lemma readNumber_loop_run:
  assumes "at_index cs i t" and "\<forall>j. i < j \<and> j < length cs \<longrightarrow> isDigit (cs ! j) base"
  shows "fst (readNumber_loop base val t) =
           foldl (\<lambda>val c. val * of_int base + of_int (charToDigit c base)) val (drop (Suc i) cs) \<and>
         m_char (snd (readNumber_loop base val t)) = CHR 0x00 \<and>
         m_token (snd (readNumber_loop base val t)) = m_token t"
  using assms
proof (induction "length cs - i" arbitrary: i t val)
  case 0
  then show ?case by (simp add: at_index_def)
next
  case (Suc k)
  let ?t' = "snd (advanceChar t)"
  show ?case
  proof (cases "Suc i < length cs")
    case True
    note in1 = advanceChar_inside [OF Suc.prems(1) True]
    have dig: "isDigit (m_char ?t') base"
      using in1(2) Suc.prems(2) True by (simp add: at_index_def)
    have ch: "m_char ?t' = cs ! Suc i"
      using in1(2) by (simp add: at_index_def)
    have unfold: "readNumber_loop base val t =
        readNumber_loop base (val * of_int base + of_int (charToDigit (cs ! Suc i) base)) ?t'"
      using in1(1) dig ch by (subst readNumber_loop.simps) (simp add: Let_def)
    have k: "k = length cs - Suc i"
      using Suc.hyps(2) by simp
    have rest: "\<forall>j. Suc i < j \<and> j < length cs \<longrightarrow> isDigit (cs ! j) base"
      using Suc.prems(2) by simp
    have dr: "drop (Suc i) cs = cs ! Suc i # drop (Suc (Suc i)) cs"
      using True by (simp add: Cons_nth_drop_Suc)
    show ?thesis
      using Suc.hyps(1) [OF k in1(2) rest] in1(3) unfolding unfold dr by simp
  next
    case False
    with Suc.prems(1) have last: "Suc i = length cs"
      by (simp add: at_index_def)
    note l = advanceChar_last [OF Suc.prems(1) last]
    have "readNumber_loop base val t = (val, ?t')"
      using l(1) by (subst readNumber_loop.simps) (simp add: Let_def)
    with l last show ?thesis by simp
  qed
qed

lemma isAlnum_NUL: "\<not> isAlnum (CHR 0x00)"
  by (simp add: isAlnum_def isAlpha_def isDigit_def char_int_def)

lemma magnitude_Cons:
  "foldl (\<lambda>val c. val * of_int base + of_int (charToDigit c base)) (of_int (charToDigit c base)) ds =
   magnitude base (c # ds)"
  by (simp add: magnitude_def)

lemma readNumber_digits_run:
  assumes "at_index cs i t" and "\<forall>j. i \<le> j \<and> j < length cs \<longrightarrow> isDigit (cs ! j) base"
  shows "\<exists>t'. readNumber_digits isNeg base t = (Inr True, t') \<and> m_char t' = CHR 0x00 \<and>
          data (m_token t') =
            Token_Int (if isNeg then - magnitude base (drop i cs) else magnitude base (drop i cs))"
proof -
  have rest: "\<forall>j. i < j \<and> j < length cs \<longrightarrow> isDigit (cs ! j) base"
    using assms(2) by simp
  have ch: "m_char t = cs ! i" and i: "i < length cs"
    using assms(1) by (simp_all add: at_index_def)
  have dr: "drop i cs = cs ! i # drop (Suc i) cs"
    using i by (simp add: Cons_nth_drop_Suc)
  obtain val t1 where loop: "readNumber_loop base (of_int (charToDigit (cs ! i) base)) t = (val, t1)"
    by (cases "readNumber_loop base (of_int (charToDigit (cs ! i) base)) t")
  from readNumber_loop_run [OF assms(1) rest, of "of_int (charToDigit (cs ! i) base)"] loop
  have val: "val = magnitude base (drop i cs)" and nul: "m_char t1 = CHR 0x00"
    unfolding dr magnitude_Cons [symmetric] by simp_all
  show ?thesis
    using loop val nul isAlnum_NUL by (simp add: readNumber_digits_def ch)
qed

lemma readNumber_prefixed_run:
  assumes "at_index cs i t" and "Suc i < length cs"
    and "\<forall>j. i < j \<and> j < length cs \<longrightarrow> isDigit (cs ! j) base"
  shows "\<exists>t'. readNumber_prefixed isNeg base t = (Inr True, t') \<and> m_char t' = CHR 0x00 \<and>
          data (m_token t') =
            Token_Int (if isNeg then - magnitude base (drop (Suc i) cs)
                       else magnitude base (drop (Suc i) cs))"
proof -
  note in1 = advanceChar_inside [OF assms(1,2)]
  have dig: "isDigit (m_char (snd (advanceChar t))) base"
    using in1(2) assms(2,3) by (simp add: at_index_def)
  have "\<forall>j. Suc i \<le> j \<and> j < length cs \<longrightarrow> isDigit (cs ! j) base"
    using assms(3) by simp
  from readNumber_digits_run [OF in1(2) this, of isNeg] dig show ?thesis
    by (simp add: readNumber_prefixed_def Let_def)
qed

lemma digit_chars:
  "isDigit c 10 \<Longrightarrow> c \<noteq> CHR ''b'' \<and> c \<noteq> CHR ''B'' \<and> c \<noteq> CHR ''x'' \<and> c \<noteq> CHR ''X''"
  "\<not> isDigit (CHR ''b'') 10" "\<not> isDigit (CHR ''B'') 10" "\<not> isDigit (CHR ''x'') 10"
  "\<not> isDigit (CHR ''X'') 10" "\<not> isDigit (CHR 0x00) 10"
  by (auto simp: isDigit_def char_int_def)

lemma magnitude_zero: "magnitude 10 (CHR ''0'' # ds) = magnitude 10 ds"
  by (simp add: magnitude_def charToDigit_def)

text \<open>A decimal literal from index \<open>i\<close> to the end of the buffer.\<close>

lemma readNumber_magnitude_decimal:
  assumes "at_index cs i t" and "\<forall>j. i \<le> j \<and> j < length cs \<longrightarrow> isDigit (cs ! j) 10"
  shows "\<exists>t'. readNumber_magnitude isNeg t = (Inr True, t') \<and> m_char t' = CHR 0x00 \<and>
          data (m_token t') =
            Token_Int (if isNeg then - magnitude 10 (drop i cs) else magnitude 10 (drop i cs))"
proof (cases "m_char t = CHR ''0''")
  case False
  with readNumber_digits_run [OF assms, of isNeg] show ?thesis
    by (simp add: readNumber_magnitude_def)
next
  case True
  have ch: "cs ! i = CHR ''0''" and i: "i < length cs"
    using assms(1) True by (simp_all add: at_index_def)
  have dr: "drop i cs = CHR ''0'' # drop (Suc i) cs"
    using i ch by (simp add: Cons_nth_drop_Suc [symmetric])
  show ?thesis
  proof (cases "Suc i < length cs")
    case inside: True
    note in1 = advanceChar_inside [OF assms(1) inside]
    have dig: "isDigit (m_char (snd (advanceChar t))) 10"
      using in1(2) assms(2) inside by (simp add: at_index_def)
    have "\<forall>j. Suc i \<le> j \<and> j < length cs \<longrightarrow> isDigit (cs ! j) 10"
      using assms(2) by simp
    from readNumber_digits_run [OF in1(2) this, of isNeg] dig True show ?thesis
      by (auto simp: readNumber_magnitude_def Let_def dr magnitude_zero)
  next
    case False
    with i have last: "Suc i = length cs" by simp
    note l = advanceChar_last [OF assms(1) last]
    have "magnitude 10 (drop i cs) = 0"
      using last by (simp add: dr magnitude_def charToDigit_def)
    with True l(2) show ?thesis
      by (simp add: readNumber_magnitude_def Let_def digit_chars)
  qed
qed

text \<open>A literal with a prefix \<^verbatim>\<open>0b\<close>, \<^verbatim>\<open>0B\<close>, \<^verbatim>\<open>0x\<close> or \<^verbatim>\<open>0X\<close> at index \<open>i\<close>, up to the end of
  the buffer.\<close>

lemma readNumber_magnitude_prefixed:
  assumes "at_index cs i t" and "cs ! i = CHR ''0''" and "Suc (Suc i) < length cs"
    and "(cs ! Suc i = CHR ''b'' \<or> cs ! Suc i = CHR ''B'') \<and> base = 2 \<or>
         (cs ! Suc i = CHR ''x'' \<or> cs ! Suc i = CHR ''X'') \<and> base = 16"
    and "\<forall>j. Suc i < j \<and> j < length cs \<longrightarrow> isDigit (cs ! j) base"
  shows "\<exists>t'. readNumber_magnitude isNeg t = (Inr True, t') \<and> m_char t' = CHR 0x00 \<and>
          data (m_token t') =
            Token_Int (if isNeg then - magnitude base (drop (Suc (Suc i)) cs)
                       else magnitude base (drop (Suc (Suc i)) cs))"
proof -
  have zero: "m_char t = CHR ''0''"
    using assms(1,2) by (simp add: at_index_def)
  have inside: "Suc i < length cs"
    using assms(3) by simp
  note in1 = advanceChar_inside [OF assms(1) inside]
  have ch: "m_char (snd (advanceChar t)) = cs ! Suc i"
    using in1(2) by (simp add: at_index_def)
  note run = readNumber_prefixed_run [OF in1(2) assms(3,5), of isNeg]
  from assms(4) show ?thesis
  proof (elim disjE conjE)
    assume "cs ! Suc i = CHR ''b''" "base = 2"
    with run zero ch show ?thesis
      by (simp add: readNumber_magnitude_def Let_def digit_chars)
  next
    assume "cs ! Suc i = CHR ''B''" "base = 2"
    with run zero ch show ?thesis
      by (simp add: readNumber_magnitude_def Let_def digit_chars)
  next
    assume "cs ! Suc i = CHR ''x''" "base = 16"
    with run zero ch show ?thesis
      by (simp add: readNumber_magnitude_def Let_def digit_chars)
  next
    assume "cs ! Suc i = CHR ''X''" "base = 16"
    with run zero ch show ?thesis
      by (simp add: readNumber_magnitude_def Let_def digit_chars)
  qed
qed

lemma skipWhitespace_id:
  "m_char t \<noteq> CHR '' '' \<Longrightarrow> m_char t \<noteq> CHR 0x09 \<Longrightarrow> m_char t \<noteq> CHR 0x0A \<Longrightarrow> skipWhitespace t = t"
  by (subst skipWhitespace.simps) simp

lemma skipComments_id: "m_char t \<noteq> CHR ''#'' \<Longrightarrow> skipComments t = t"
  by (subst skipComments.simps) simp

text \<open>When the current character starts a number and \<open>readNumber\<close> reads up to the end of the
  buffer, \<open>advance\<close> gives that token and the next \<open>advance\<close> gives the end of the input, so
  \<open>parseValue\<close> returns the integer.\<close>

lemma advance_number:
  assumes start: "isDigit (m_char t) 10 \<or> m_char t = CHR ''-'' \<or> m_char t = CHR ''+''"
    and num: "\<And>tok. \<exists>t'. readNumber (t\<lparr>m_token := tok\<rparr>) = (Inr True, t') \<and> m_char t' = CHR 0x00 \<and>
                 data (m_token t') = Token_Int v"
  shows "\<exists>t'. advance t = (Inr True, t') \<and> m_char t' = CHR 0x00 \<and> data (m_token t') = Token_Int v"
proof -
  have ws: "skipWhitespace t = t"
    using start by (intro skipWhitespace_id) (auto simp: isDigit_def char_int_def)
  have cs: "skipComments t = t"
    using start by (intro skipComments_id) (auto simp: isDigit_def char_int_def)
  let ?t3 = "t\<lparr>m_token := (m_token t)\<lparr>data := Token_Eof, span :=
      \<lparr>beginLineNumber = m_lineNumber t, beginColumnNumber = m_columNumber t,
       endLineNumber = m_lineNumber t, endColumnNumber = m_columNumber t\<rparr>\<rparr>\<rparr>"
  have ident: "readIdentifier ?t3 = (False, ?t3)"
    using start by (auto simp: readIdentifier_def isAlpha_def isDigit_def char_int_def)
  from num [of "(m_token t)\<lparr>data := Token_Eof, span :=
      \<lparr>beginLineNumber = m_lineNumber t, beginColumnNumber = m_columNumber t,
       endLineNumber = m_lineNumber t, endColumnNumber = m_columNumber t\<rparr>\<rparr>"]
  obtain t4 where t4: "readNumber ?t3 = (Inr True, t4)" "m_char t4 = CHR 0x00"
    "data (m_token t4) = Token_Int v"
    by blast
  have "read_methods READ_METHODS ?t3 = (Inr (), t4)"
    by (simp add: READ_METHODS_def no_throw_def ident t4(1))
  then show ?thesis
    unfolding advance_def ws cs Let_def
    by (simp add: Token_reset_def t4 kind_def)
qed

lemma parse_number:
  assumes "0 < length cs"
    and start: "isDigit (cs ! 0) 10 \<or> cs ! 0 = CHR ''-'' \<or> cs ! 0 = CHR ''+''"
    and num: "\<And>t. at_index cs 0 t \<Longrightarrow>
               \<exists>t'. readNumber t = (Inr True, t') \<and> m_char t' = CHR 0x00 \<and>
                 data (m_token t') = Token_Int v"
  shows "parse_text (Suc n) out cs = Some (Inr (True, Value_Int v))"
proof -
  let ?t0 = "setText Tokenizer_default cs (length cs)"
  have at: "at_index cs 0 ?t0"
    using assms(1) by (simp add: at_index_def setText_def)
  have ch: "m_char ?t0 = cs ! 0"
    using at by (simp add: at_index_def)
  have "\<exists>t'. advance ?t0 = (Inr True, t') \<and> m_char t' = CHR 0x00 \<and> data (m_token t') = Token_Int v"
  proof (rule advance_number)
    show "isDigit (m_char ?t0) 10 \<or> m_char ?t0 = CHR ''-'' \<or> m_char ?t0 = CHR ''+''"
      using start unfolding ch .
    show "\<exists>t'. readNumber (?t0\<lparr>m_token := tok\<rparr>) = (Inr True, t') \<and> m_char t' = CHR 0x00 \<and>
                 data (m_token t') = Token_Int v" for tok
      using at by (intro num) simp
  qed
  then obtain t1 where t1: "advance ?t0 = (Inr True, t1)" "m_char t1 = CHR 0x00"
    "data (m_token t1) = Token_Int v"
    by blast
  have "parseValue (Suc n) out t1 = advance_return (Value_Int v) t1"
    using t1(3) by (simp add: parseValue.simps)
  also have "\<dots> = Some (Inr (True, Value_Int v), snd (advance t1))"
    using advance_at_NUL [OF t1(2)] by (simp add: advance_return_def)
  finally show ?thesis
    using t1(1) by (simp add: parse_text_def parse_def parse_run_def)
qed

lemma drop_nth:
  assumes "drop i cs = body" and "k < length body"
  shows "cs ! (i + k) = body ! k" and "i + k < length cs"
proof -
  have "length body = length cs - i"
    using assms(1) by auto
  with assms(2) show "i + k < length cs" by simp
  then have "i \<le> length cs" by simp
  from nth_drop [OF this, of k] assms(1) show "cs ! (i + k) = body ! k" by simp
qed

text \<open>The digits of the literal, after the sign: plain decimal digits, or a prefix and digits
  of base 2 or 16.\<close>

lemma readNumber_magnitude_run:
  assumes at: "at_index cs i t" and body: "drop i cs = prefix @ ds" and ds: "ds \<noteq> []"
    and digits: "\<forall>c \<in> set ds. isDigit c base"
    and base: "base = 10 \<and> prefix = [] \<or>
               base = 2 \<and> (prefix = ''0b'' \<or> prefix = ''0B'') \<or>
               base = 16 \<and> (prefix = ''0x'' \<or> prefix = ''0X'')"
  shows "\<exists>t'. readNumber_magnitude isNeg t = (Inr True, t') \<and> m_char t' = CHR 0x00 \<and>
          data (m_token t') = Token_Int (if isNeg then - magnitude base ds else magnitude base ds)"
proof (cases "prefix = []")
  case True
  with base have b: "base = 10" by auto
  have "isDigit (cs ! j) 10" if "i \<le> j" "j < length cs" for j
  proof -
    have "j - i < length (prefix @ ds)"
      using that body [symmetric] by simp
    from drop_nth(1) [OF body this] that True have "cs ! j = ds ! (j - i)" by simp
    moreover have "j - i < length ds"
      using \<open>j - i < length (prefix @ ds)\<close> True by simp
    ultimately show ?thesis
      using digits b by (simp add: nth_mem)
  qed
  then have "\<forall>j. i \<le> j \<and> j < length cs \<longrightarrow> isDigit (cs ! j) 10" by blast
  from readNumber_magnitude_decimal [OF at this, of isNeg] show ?thesis
    using body True b by auto
next
  case False
  with base have len: "length prefix = 2" and p0: "prefix ! 0 = CHR ''0''"
    and p1: "(prefix ! 1 = CHR ''b'' \<or> prefix ! 1 = CHR ''B'') \<and> base = 2 \<or>
             (prefix ! 1 = CHR ''x'' \<or> prefix ! 1 = CHR ''X'') \<and> base = 16"
    by auto
  have c0: "cs ! i = CHR ''0''"
    using drop_nth(1) [OF body, of 0] len p0 by (simp add: nth_append)
  have c1: "cs ! Suc i = prefix ! 1"
    using drop_nth(1) [OF body, of 1] len by (simp add: nth_append)
  have l: "Suc (Suc i) < length cs"
    using drop_nth(2) [OF body, of 2] len ds by simp
  have dig: "isDigit (cs ! j) base" if "Suc i < j" "j < length cs" for j
  proof -
    have k: "j - i < length (prefix @ ds)"
      using that body [symmetric] by simp
    have "\<not> j - i < 2" "i + (j - i) = j"
      using that by simp_all
    with drop_nth(1) [OF body k] len have "cs ! j = ds ! (j - i - 2)"
      by (simp add: nth_append)
    moreover have "j - i - 2 < length ds"
      using k len that by simp
    ultimately show ?thesis
      using digits by (simp add: nth_mem)
  qed
  then have digs: "\<forall>j. Suc i < j \<and> j < length cs \<longrightarrow> isDigit (cs ! j) base" by blast
  have dr: "drop (Suc (Suc i)) cs = ds"
  proof -
    have "drop (Suc (Suc i)) cs = drop 2 (drop i cs)" by simp
    also have "\<dots> = ds" unfolding body using len by simp
    finally show ?thesis .
  qed
  from readNumber_magnitude_prefixed [OF at c0 l _ digs, of isNeg] p1 c1 show ?thesis
    unfolding dr by simp
qed

text \<open>A whole literal: an optional sign, then the digits.\<close>

lemma readNumber_run:
  assumes at: "at_index cs 0 t" and cs: "cs = sign @ prefix @ ds" and ds: "ds \<noteq> []"
    and digits: "\<forall>c \<in> set ds. isDigit c base"
    and sign: "sign = [] \<or> sign = ''-'' \<or> sign = ''+''"
    and base: "base = 10 \<and> prefix = [] \<or>
               base = 2 \<and> (prefix = ''0b'' \<or> prefix = ''0B'') \<or>
               base = 16 \<and> (prefix = ''0x'' \<or> prefix = ''0X'')"
  shows "\<exists>t'. readNumber t = (Inr True, t') \<and> m_char t' = CHR 0x00 \<and>
          data (m_token t') =
            Token_Int (if sign = ''-'' then - magnitude base ds else magnitude base ds)"
proof -
  have first: "isDigit ((prefix @ ds) ! 0) 10"
  proof (cases "prefix = []")
    case True
    with base ds digits show ?thesis by (cases ds) auto
  next
    case False
    with base have "prefix ! 0 = CHR ''0''" "prefix \<noteq> []" by auto
    then show ?thesis by (simp add: nth_append isDigit_def char_int_def)
  qed
  have ch: "m_char t = cs ! 0"
    using at by (simp add: at_index_def)
  show ?thesis
  proof (cases "sign = []")
    case True
    then have dr: "drop 0 cs = prefix @ ds" using cs by simp
    have dig: "isDigit (m_char t) 10"
      using first ch cs True by simp
    then have s: "readNumber_sign t = (Inr False, t)"
      by (simp add: readNumber_sign_def)
    from readNumber_magnitude_run [OF at dr ds digits base, of False] dig s True show ?thesis
      by (simp add: readNumber_def)
  next
    case False
    with sign have sg: "sign = ''-'' \<or> sign = ''+''" by simp
    then have c0: "m_char t = CHR ''-'' \<or> m_char t = CHR ''+''" and len: "length sign = 1"
      using ch cs by auto
    then have nd: "\<not> isDigit (m_char t) 10"
      by (auto simp: isDigit_def char_int_def)
    have l: "Suc 0 < length cs"
      using cs len ds by (cases ds) auto
    note in1 = advanceChar_inside [OF at l]
    have dr: "drop (Suc 0) cs = prefix @ ds"
      using cs len by simp
    have s: "readNumber_sign t = (Inr (sign = ''-''), snd (advanceChar t))"
      using sg ch cs nd by (auto simp: readNumber_sign_def)
    from readNumber_magnitude_run [OF in1(2) dr ds digits base, of "sign = ''-''"] c0 s
    show ?thesis
      by (auto simp: readNumber_def)
  qed
qed

text \<open>Every literal: an optional sign, then a run of decimal digits, or of binary digits
  after \<^verbatim>\<open>0b\<close> or \<^verbatim>\<open>0B\<close>, or of hexadecimal digits after \<^verbatim>\<open>0x\<close> or \<^verbatim>\<open>0X\<close>.\<close>

lemma parse_literal:
  assumes ds: "ds \<noteq> []" and digits: "\<forall>c \<in> set ds. isDigit c base"
    and sign: "sign = [] \<or> sign = ''-'' \<or> sign = ''+''"
    and base: "base = 10 \<and> prefix = [] \<or>
               base = 2 \<and> (prefix = ''0b'' \<or> prefix = ''0B'') \<or>
               base = 16 \<and> (prefix = ''0x'' \<or> prefix = ''0X'')"
  shows "parse_text (Suc n) out (sign @ prefix @ ds) =
           Some (Inr (True, Value_Int (if sign = ''-'' then - magnitude base ds else magnitude base ds)))"
proof (rule parse_number)
  let ?cs = "sign @ prefix @ ds"
  show "0 < length ?cs" using ds by simp
  show "isDigit (?cs ! 0) 10 \<or> ?cs ! 0 = CHR ''-'' \<or> ?cs ! 0 = CHR ''+''"
  proof (cases "sign = []")
    case True
    show ?thesis
    proof (cases "prefix = []")
      case True
      with \<open>sign = []\<close> base ds digits show ?thesis by (cases ds) auto
    next
      case False
      with base have "prefix ! 0 = CHR ''0''" "prefix \<noteq> []" by auto
      with \<open>sign = []\<close> show ?thesis by (simp add: nth_append isDigit_def char_int_def)
    qed
  next
    case False
    with sign show ?thesis by auto
  qed
  show "\<exists>t'. readNumber t = (Inr True, t') \<and> m_char t' = CHR 0x00 \<and>
          data (m_token t') =
            Token_Int (if sign = ''-'' then - magnitude base ds else magnitude base ds)"
    if "at_index ?cs 0 t" for t
    using that refl ds digits sign base by (rule readNumber_run)
qed

subsection \<open>Objects of the store\<close>

lemma moveDataTo_id: "moveDataTo v = v"
  by (cases v) simp_all

lemma children_with_children:
  "length vs = length (children v) \<Longrightarrow> children (with_children v vs) = vs"
  by (cases v) simp_all

lemma with_children_twice:
  "length vs' = length (children v) \<Longrightarrow>
   with_children (with_children v vs') vs = with_children v vs"
  by (cases v) simp_all

lemma store_in_twice: "store_in (store_in v p w') p w = store_in v p w"
proof (induction p arbitrary: v)
  case Nil
  show ?case by simp
next
  case (Cons i p)
  show ?case
  proof (cases "i < length (children v)")
    case False
    then show ?thesis by simp
  next
    case True
    then show ?thesis
      by (simp add: children_with_children with_children_twice Cons.IH)
  qed
qed

lemma object_in_store_in_same:
  "object_in v p = Some x \<Longrightarrow> object_in (store_in v p w) p = Some w"
proof (induction p arbitrary: v x)
  case Nil
  then show ?case by simp
next
  case (Cons i p)
  then show ?case
    by (simp add: children_with_children split: if_splits)
qed

lemma object_in_store_in_other:
  "take (length p) q \<noteq> p \<Longrightarrow> take (length q) p \<noteq> q \<Longrightarrow>
   object_in (store_in v p w) q = object_in v q"
proof (induction p arbitrary: v q)
  case Nil
  then show ?case by simp
next
  case (Cons i p)
  show ?case
  proof (cases q)
    case Nil
    with Cons.prems show ?thesis by simp
  next
    case (Cons j q')
    show ?thesis
    proof (cases "i < length (children v)")
      case False
      then show ?thesis by simp
    next
      case True
      show ?thesis
      proof (cases "i = j")
        case True
        with Cons.prems Cons have "take (length p) q' \<noteq> p" "take (length q') p \<noteq> q'"
          by simp_all
        from Cons.IH [OF this] show ?thesis
          using Cons True \<open>i < length (children v)\<close> by (simp add: children_with_children)
      next
        case False
        then show ?thesis
          using Cons True by (simp add: children_with_children)
      qed
    qed
  qed
qed

text \<open>Between separate objects the assignment runs to its end: the destination releases what
  it held and holds the value of the source, and the source is left undefined.\<close>

lemma move_assign_separate:
  assumes dst: "deref s this = Some w" and src: "deref s that = Some v"
    and sep: "separate this that"
  shows "\<exists>s'. Value_move_assign s this that =
                 Inr (if type w \<noteq> ValueType_Undefined then releaseData w else [], s') \<and>
           deref s' this = Some v \<and> deref s' that = Some Value_Undefined"
proof -
  obtain a p where r1: "this = (a, p)" by (cases this)
  obtain b q where r2: "that = (b, q)" by (cases that)
  from dst r1 obtain x where x: "s a = Some x" "object_in x p = Some w"
    by (auto simp: deref_def split: option.splits)
  from src r2 obtain y where y: "s b = Some y" "object_in y q = Some v"
    by (auto simp: deref_def split: option.splits)
  from sep have no: "\<not> owns this that" "\<not> owns that this" "this \<noteq> that"
    by (simp_all add: separate_def)
  let ?rel = "if type w \<noteq> ValueType_Undefined then releaseData w else []"
  let ?s' = "assign (assign s this v) that Value_Undefined"
  have run: "Value_move_assign s this that = Inr (?rel, ?s')"
    using dst src no by (simp add: Value_move_assign_def Let_def moveDataTo_id)
  have "deref ?s' this = Some v \<and> deref ?s' that = Some Value_Undefined"
  proof (cases "a = b")
    case False
    then show ?thesis
      using x y r1 r2 by (simp add: deref_def assign_def object_in_store_in_same)
  next
    case True
    with no r1 r2 have inc: "take (length p) q \<noteq> p" "take (length q) p \<noteq> q"
      by (auto simp: owns_def)
    from True x y have xy: "y = x" by simp
    have 1: "object_in (store_in x p v) q = Some v"
      using object_in_store_in_other [OF inc] y xy by simp
    have 2: "object_in (store_in (store_in x p v) q Value_Undefined) q = Some Value_Undefined"
      by (rule object_in_store_in_same [OF 1])
    have 3: "object_in (store_in (store_in x p v) q Value_Undefined) p = Some v"
      using object_in_store_in_other [OF inc(2) inc(1)] object_in_store_in_same [OF x(2)]
      by simp
    show ?thesis
      using True x r1 r2 2 3 by (simp add: deref_def assign_def)
  qed
  with run show ?thesis by blast
qed

text \<open>Where the source is the destination, a \<^verbatim>\<open>bool\<close>, an \<^verbatim>\<open>intptr_t\<close>, a \<^verbatim>\<open>float\<close> and a null
  are lost: the one object is left undefined. A string, an array or a dict is read after its
  destructor has run, and so is every source that the destination owns.\<close>

lemma move_assign_self:
  assumes "deref s r = Some v"
  shows "Value_move_assign s r r =
           (if type v \<in> {ValueType_String, ValueType_Array, ValueType_Dict}
            then Inl use_after_destroy else Inr ([], assign s r Value_Undefined))"
proof -
  obtain a p where r: "r = (a, p)" by (cases r)
  from assms r obtain x where x: "s a = Some x" "object_in x p = Some v"
    by (auto simp: deref_def split: option.splits)
  show ?thesis
    using assms r x
    by (cases v)
      (simp_all add: Value_move_assign_def Let_def owns_def releaseData_def assign_def
        store_in_twice)
qed

lemma move_assign_owned_source:
  assumes "deref s this = Some w" and "deref s that = Some v" and "owns this that"
  shows "Value_move_assign s this that = Inl use_after_destroy"
proof -
  obtain a p where r1: "this = (a, p)" by (cases this)
  obtain b q where r2: "that = (b, q)" by (cases that)
  from assms(3) r1 r2 have ab: "b = a" and pq: "p \<noteq> q" "take (length p) q = p"
    by (simp_all add: owns_def)
  from assms(1) r1 obtain x where x: "s a = Some x" "object_in x p = Some w"
    by (auto simp: deref_def split: option.splits)
  from assms(2) r2 ab x have q: "object_in x q = Some v"
    by (simp add: deref_def)
  from pq obtain i q' where qq: "q = p @ i # q'"
    by (metis append_take_drop_id append_Nil2 list.exhaust)
  have "object_in x (p @ i # q') = Some v \<Longrightarrow> object_in x p = Some w \<Longrightarrow>
        i < length (children w)" for x
  proof (induction p arbitrary: x)
    case Nil
    then show ?case by (simp split: if_splits)
  next
    case (Cons j p)
    then show ?case by (simp split: if_splits)
  qed
  from this [OF q [unfolded qq] x(2)] have "children w \<noteq> []" by auto
  then have "releaseData w \<noteq> []" "type w \<noteq> ValueType_Undefined"
    by (cases w; simp add: releaseData_def)+
  then show ?thesis
    using assms by (simp add: Value_move_assign_def Let_def)
qed

text \<open>Where the source owns the destination, the destination ends as an element of its own
  payload.\<close>

lemma move_assign_owning_source:
  assumes "deref s this = Some w" and "deref s that = Some v" and "owns that this"
  shows "Value_move_assign s this that = Inl owns_itself"
proof -
  from assms(3) have ne: "this \<noteq> that"
    by (auto simp: owns_def)
  have "\<not> owns this that"
  proof
    assume "owns this that"
    with assms(3) have "take (length (snd this)) (snd that) = snd this"
      "take (length (snd that)) (snd this) = snd that" "snd this \<noteq> snd that"
      by (simp_all add: owns_def)
    then show False
      by (metis length_take min.cobounded1 min.cobounded2 order_antisym take_all_iff
          order_refl)
  qed
  with assms ne show ?thesis
    by (simp add: Value_move_assign_def Let_def)
qed

section \<open>The claims\<close>

text \<open>C1. A diagnostic should carry the error kind it was constructed with, next to the span
  and the message. The constructor stores the span and the message, and leaves
  \<open>errorID\<close> without a value, whatever kind is passed.\<close>

theorem GclException_errorID_not_stored:
  "errorID (GclException e s i) = None \<and> errorID (GclException e s i) \<noteq> Some e \<and>
   exn_span (GclException e s i) = s \<and> info (GclException e s i) = i"
  by (simp add: GclException_def)

text \<open>C2. \<^verbatim>\<open>parse("[]")\<close> should give an array without elements. In \<^verbatim>\<open>parseArray\<close> the
  loop parses a value before it looks for \<^verbatim>\<open>]\<close>, and \<^verbatim>\<open>parseValue\<close> returns true on the
  token \<^verbatim>\<open>]\<close> without touching its output: the array gets one undefined element. The
  text \<^verbatim>\<open>[1,2,3]\<close> gives the three integers in order, as claimed.\<close>

theorem parse_empty_array_one_element:
  "parse_text (4 + n) out ''[]'' = Some (Inr (True, Value_Array [Value_Undefined])) \<and>
   parse_text (6 + n) out ''[1,2,3]'' =
     Some (Inr (True, Value_Array [Value_Int 1, Value_Int 2, Value_Int 3]))"
  using parse_text_fuel_mono [OF parse_array_empty, of "4 + n" out]
    parse_text_fuel_mono [OF parse_array_123, of "6 + n" out]
  by simp

text \<open>C3. On a punctuation token other than \<^verbatim>\<open>{\<close> and \<^verbatim>\<open>[\<close> \<^verbatim>\<open>parseValue\<close> should return
  false. The branch for punctuation has no \<^verbatim>\<open>else\<close>, so control reaches the final
  \<^verbatim>\<open>return true\<close>: on each of \<^verbatim>\<open>]\<close>, \<^verbatim>\<open>}\<close>, \<^verbatim>\<open>,\<close> and \<^verbatim>\<open>:\<close> the call returns true, with
  the output and the tokenizer as they were; so does \<^verbatim>\<open>parse("]")\<close>.\<close>

theorem parseValue_punctuaction_returns_true:
  "parseValue (Suc n) out (t\<lparr>m_token := \<lparr>span = s, data = Token_Punctuaction Rsqb\<rparr>\<rparr>) =
     Some (Inr (True, out), t\<lparr>m_token := \<lparr>span = s, data = Token_Punctuaction Rsqb\<rparr>\<rparr>) \<and>
   parseValue (Suc n) out (t\<lparr>m_token := \<lparr>span = s, data = Token_Punctuaction Rbrace\<rparr>\<rparr>) =
     Some (Inr (True, out), t\<lparr>m_token := \<lparr>span = s, data = Token_Punctuaction Rbrace\<rparr>\<rparr>) \<and>
   parseValue (Suc n) out (t\<lparr>m_token := \<lparr>span = s, data = Token_Punctuaction Comma\<rparr>\<rparr>) =
     Some (Inr (True, out), t\<lparr>m_token := \<lparr>span = s, data = Token_Punctuaction Comma\<rparr>\<rparr>) \<and>
   parseValue (Suc n) out (t\<lparr>m_token := \<lparr>span = s, data = Token_Punctuaction Colon\<rparr>\<rparr>) =
     Some (Inr (True, out), t\<lparr>m_token := \<lparr>span = s, data = Token_Punctuaction Colon\<rparr>\<rparr>) \<and>
   parse_text (Suc n) out '']'' = Some (Inr (True, out))"
  using parse_text_fuel_mono [OF parse_rsqb, of "Suc n" out]
  by (simp add: parseValue.simps)

text \<open>C4. A key written twice should abort the parse with the kind \<^verbatim>\<open>KeyAlreadyDefined\<close>.
  The parse of \<^verbatim>\<open>{a:1,a:2}\<close> is aborted, and the message names the key; the first entry is
  not overwritten by the insertion. But the exception is constructed with the kind
  \<^verbatim>\<open>ExpectedPunctuaction\<close>, and its \<open>errorID\<close> holds no kind at all.\<close>

theorem parse_duplicate_key_kind:
  "parse_text (5 + n) out ''{a:1,a:2}'' =
     Some (Inl (GclException ExpectedPunctuaction
       \<lparr>beginLineNumber = 1, beginColumnNumber = 8, endLineNumber = 1, endColumnNumber = 8\<rparr>
       ''key `a` already defined'')) \<and>
   parse_text (5 + n) out ''{a:1,a:2}'' =
     Some (Inl \<lparr>errorID = None,
                exn_span = \<lparr>beginLineNumber = 1, beginColumnNumber = 8,
                             endLineNumber = 1, endColumnNumber = 8\<rparr>,
                info = ''key `a` already defined''\<rparr>) \<and>
   insert_Dict (''a'', Value_Int 2) [(''a'', Value_Int 1)] = ([(''a'', Value_Int 1)], False)"
  using parse_text_fuel_mono [OF parse_dict_aa, of "5 + n" out]
  by (simp add: GclException_def)

text \<open>C5, as claimed: for every value exactly one of the six typed accessors returns.
  This fails for the value \<^verbatim>\<open>Value(nullptr)\<close>, on which all six throw.\<close>

theorem accessors_Null_counterexample:
  "length (filter id (accessors_return Value_Null)) \<noteq> 1"
  by (simp add: accessors_return_def returns_def getBool_def getInt_def getFloat_def
      getString_def getArray_def getDict_def)

text \<open>C5, amended: for a value with one of the tags Bool, Int, Float, String, Array and Dict
  exactly one of the six accessors returns, and it is the accessor of that tag; for a value
  with the tag Undefined or Null none returns; and an accessor asked for another kind than
  the tag throws the type mismatch.\<close>

theorem accessors_by_tag:
  "length (filter id (accessors_return v)) =
     (if type v = ValueType_Undefined \<or> type v = ValueType_Null then 0 else 1) \<and>
   (returns (getBool v) \<longleftrightarrow> type v = ValueType_Bool) \<and>
   (returns (getInt v) \<longleftrightarrow> type v = ValueType_Int) \<and>
   (returns (getFloat v) \<longleftrightarrow> type v = ValueType_Float) \<and>
   (returns (getString v) \<longleftrightarrow> type v = ValueType_String) \<and>
   (returns (getArray v) \<longleftrightarrow> type v = ValueType_Array) \<and>
   (returns (getDict v) \<longleftrightarrow> type v = ValueType_Dict) \<and>
   (type v \<noteq> ValueType_Bool \<longrightarrow> getBool v = Inl (runtime_error ''Value::getBool() -> type mismatch'')) \<and>
   (type v \<noteq> ValueType_Int \<longrightarrow> getInt v = Inl (runtime_error ''Value::getInt() -> type mismatch'')) \<and>
   (type v \<noteq> ValueType_Float \<longrightarrow> getFloat v = Inl (runtime_error ''Value::getFloat() -> type mismatch'')) \<and>
   (type v \<noteq> ValueType_String \<longrightarrow> getString v = Inl (runtime_error ''Value::getString() -> type mismatch'')) \<and>
   (type v \<noteq> ValueType_Array \<longrightarrow> getArray v = Inl (runtime_error ''Value::getArray() -> type mismatch'')) \<and>
   (type v \<noteq> ValueType_Dict \<longrightarrow> getDict v = Inl (runtime_error ''Value::getDict() -> type mismatch''))"
  by (cases v)
     (simp_all add: accessors_return_def returns_def getBool_def getInt_def getFloat_def
        getString_def getArray_def getDict_def)

theorem accessors_by_tag_witness:
  "length (filter id (accessors_return (Value_Int 5))) = 1 \<and>
   returns (getInt (Value_Int 5)) \<and>
   type (Value_Int 5) \<noteq> ValueType_Bool \<and>
   getBool (Value_Int 5) = Inl (runtime_error ''Value::getBool() -> type mismatch'') \<and>
   type (Value_Int 5) \<noteq> ValueType_Dict \<and>
   getDict (Value_Int 5) = Inl (runtime_error ''Value::getDict() -> type mismatch'')"
  using accessors_by_tag [of "Value_Int 5"] by simp

text \<open>C6. A literal is an optional sign, then a run of decimal digits, or of binary digits
  after \<^verbatim>\<open>0b\<close> or \<^verbatim>\<open>0B\<close>, or of hexadecimal digits after \<^verbatim>\<open>0x\<close> or \<^verbatim>\<open>0X\<close>. It parses to
  the integer whose magnitude is built from 0 by \<open>value = value * base + digit\<close> in
  \<^verbatim>\<open>uintptr_t\<close>, negated in two's complement after a minus sign. So \<^verbatim>\<open>123\<close>, \<^verbatim>\<open>-123\<close>,
  \<^verbatim>\<open>0x1F\<close>, \<^verbatim>\<open>0b101\<close> and \<^verbatim>\<open>0\<close> parse to the integers 123, -123, 31, 5 and 0.\<close>

theorem parse_integer_literals:
  "(ds \<noteq> [] \<longrightarrow> (\<forall>c \<in> set ds. isDigit c base) \<longrightarrow>
      (sign = [] \<or> sign = ''-'' \<or> sign = ''+'') \<longrightarrow>
      (base = 10 \<and> prefix = [] \<or>
       base = 2 \<and> (prefix = ''0b'' \<or> prefix = ''0B'') \<or>
       base = 16 \<and> (prefix = ''0x'' \<or> prefix = ''0X'')) \<longrightarrow>
      parse_text (Suc n) out (sign @ prefix @ ds) =
        Some (Inr (True, Value_Int (if sign = ''-'' then - magnitude base ds else magnitude base ds)))) \<and>
   parse_text (Suc n) out ''123'' = Some (Inr (True, Value_Int 123)) \<and>
   parse_text (Suc n) out ''-123'' = Some (Inr (True, Value_Int (- 123))) \<and>
   sint (- 123 :: intptr_t) = - 123 \<and>
   parse_text (Suc n) out ''0x1F'' = Some (Inr (True, Value_Int 31)) \<and>
   parse_text (Suc n) out ''0b101'' = Some (Inr (True, Value_Int 5)) \<and>
   parse_text (Suc n) out ''0'' = Some (Inr (True, Value_Int 0))"
  using parse_literal [of ds base sign prefix n out]
    parse_text_fuel_mono [OF parse_123, of "Suc n" out]
    parse_text_fuel_mono [OF parse_minus_123, of "Suc n" out]
    parse_text_fuel_mono [OF parse_0x1F, of "Suc n" out]
    parse_text_fuel_mono [OF parse_0b101, of "Suc n" out]
    parse_text_fuel_mono [OF parse_0, of "Suc n" out]
  by simp

theorem parse_integer_literals_witness:
  "''1F'' \<noteq> [] \<and> isDigit CHR ''1'' 16 \<and> isDigit CHR ''F'' 16 \<and>
   parse_text 1 Value_Undefined ''-0x1F'' = Some (Inr (True, Value_Int (- 31))) \<and>
   magnitude 16 ''1F'' = 31"
  using parse_integer_literals [where ds = "''1F''" and base = 16 and sign = "''-''"
      and prefix = "''0x''" and n = 0 and out = Value_Undefined]
  by (simp add: isDigit_def char_int_def magnitude_def charToDigit_def)

text \<open>C7. In every value that a parse returns, each dict has its keys in strictly increasing
  lexicographic order, so the keys are unique and sorted, whatever the order in the text was
  (given that the output passed in, which is returned as it is on some tokens, is such a
  value, as a default-constructed one is). \<^verbatim>\<open>parse("{}")\<close> gives the empty dict, and
  \<^verbatim>\<open>parse("{b:2,a:1}")\<close> gives the dict that has key \<^verbatim>\<open>a\<close> before key \<^verbatim>\<open>b\<close>.\<close>

theorem parsed_dict_keys_sorted:
  "(dicts_sorted out \<longrightarrow> parse fuel out chars len = Some (Inr (b, v)) \<longrightarrow>
      dicts_sorted v \<and>
      (\<forall>d. v = Value_Dict d \<longrightarrow>
         sorted_wrt (<) (map fst d) \<and> distinct (map fst d) \<and> sorted (map fst d))) \<and>
   parse_text (3 + n) out' ''{}'' = Some (Inr (True, Value_Dict [])) \<and>
   parse_text (5 + n) out' ''{b:2,a:1}'' =
     Some (Inr (True, Value_Dict [(''a'', Value_Int 1), (''b'', Value_Int 2)]))"
proof -
  have "dicts_sorted v \<and>
      (\<forall>d. v = Value_Dict d \<longrightarrow>
         sorted_wrt (<) (map fst d) \<and> distinct (map fst d) \<and> sorted (map fst d))"
    if "dicts_sorted out" "parse fuel out chars len = Some (Inr (b, v))"
    using parse_dicts_sorted [OF that] by (auto simp: strict_sorted_iff)
  then show ?thesis
    using parse_text_fuel_mono [OF parse_dict_empty, of "3 + n" out']
      parse_text_fuel_mono [OF parse_dict_ba, of "5 + n" out']
    by simp
qed

theorem parsed_dict_keys_sorted_witness:
  "dicts_sorted Value_Undefined \<and>
   parse 5 Value_Undefined ''{b:2,a:1}'' 9 =
     Some (Inr (True, Value_Dict [(''a'', Value_Int 1), (''b'', Value_Int 2)])) \<and>
   dicts_sorted (Value_Dict [(''a'', Value_Int 1), (''b'', Value_Int 2)]) \<and>
   sorted_wrt (<) [''a'', ''b''] \<and> distinct [''a'', ''b'']"
proof -
  have h: "parse 5 Value_Undefined ''{b:2,a:1}'' 9 =
     Some (Inr (True, Value_Dict [(''a'', Value_Int 1), (''b'', Value_Int 2)]))"
    by code_simp
  from parsed_dict_keys_sorted [of Value_Undefined 5 "''{b:2,a:1}''" 9 True
      "Value_Dict [(''a'', Value_Int 1), (''b'', Value_Int 2)]"] h
  show ?thesis by simp
qed

text \<open>C8, as claimed: for every value \<open>v\<close>, move-assigning from \<open>v\<close> gives the destination the
  tag and the payload of \<open>v\<close>. In \<^verbatim>\<open>v = std::move(v)\<close> with \<open>v\<close> the integer 5 the destination
  is \<open>v\<close> itself; the assignment ends with \<^verbatim>\<open>that.type = ValueType::Undefined\<close>, so the one
  object is left undefined and the 5 is lost. In \<^verbatim>\<open>a = std::move(a.getArray()[0])\<close> the
  destination destroys its elements before it reads the source, which is one of them.\<close>

theorem move_assign_self_counterexample:
  "Value_move_assign [0 \<mapsto> Value_Int 5] (0, []) (0, []) = Inr ([], [0 \<mapsto> Value_Undefined]) \<and>
   deref [0 \<mapsto> Value_Undefined] (0, []) \<noteq> Some (Value_Int 5) \<and>
   Value_move_assign [0 \<mapsto> Value_Array [Value_Int 1]] (0, []) (0, [0]) = Inl use_after_destroy"
  by (simp add: Value_move_assign_def deref_def assign_def owns_def releaseData_def Let_def)

text \<open>C8, amended: for every value \<open>v\<close>, move-constructing from \<open>v\<close>, or move-assigning from
  \<open>v\<close> to a destination that is another object, one that neither owns \<open>v\<close> nor is owned by
  \<open>v\<close>, gives the destination the tag and the payload of \<open>v\<close> and leaves \<open>v\<close> undefined, so
  that the destructor of \<open>v\<close> releases nothing afterwards.\<close>

theorem move_transfers:
  "fst (Value_move v) = v \<and>
   type (fst (Value_move v)) = type v \<and>
   snd (Value_move v) = Value_Undefined \<and>
   Value_destroy (snd (Value_move v)) = [] \<and>
   (deref s this \<noteq> None \<longrightarrow> deref s that = Some v \<longrightarrow> separate this that \<longrightarrow>
      (\<exists>released s' dest left.
          Value_move_assign s this that = Inr (released, s') \<and>
          deref s' this = Some dest \<and> dest = v \<and> type dest = type v \<and>
          deref s' that = Some left \<and> left = Value_Undefined \<and> Value_destroy left = []))"
proof -
  have ctor: "fst (Value_move v) = v \<and> type (fst (Value_move v)) = type v \<and>
      snd (Value_move v) = Value_Undefined \<and> Value_destroy (snd (Value_move v)) = []"
    by (simp add: Value_move_def Value_destroy_def moveDataTo_id)
  have "\<exists>released s' dest left.
          Value_move_assign s this that = Inr (released, s') \<and>
          deref s' this = Some dest \<and> dest = v \<and> type dest = type v \<and>
          deref s' that = Some left \<and> left = Value_Undefined \<and> Value_destroy left = []"
    if dst: "deref s this \<noteq> None" and src: "deref s that = Some v"
      and sep: "separate this that"
  proof -
    from dst obtain w where w: "deref s this = Some w" by auto
    from move_assign_separate [OF w src sep] show ?thesis
      by (auto simp: Value_destroy_def)
  qed
  with ctor show ?thesis by blast
qed

theorem move_transfers_witness:
  "deref [0 \<mapsto> Value_Array [Value_String ''old'', Value_Dict [(''k'', Value_Int 3)]]] (0, [0])
     \<noteq> None \<and>
   deref [0 \<mapsto> Value_Array [Value_String ''old'', Value_Dict [(''k'', Value_Int 3)]]] (0, [1])
     = Some (Value_Dict [(''k'', Value_Int 3)]) \<and>
   separate (0, [0]) (0, [1]) \<and>
   Value_move_assign
       [0 \<mapsto> Value_Array [Value_String ''old'', Value_Dict [(''k'', Value_Int 3)]]]
       (0, [0]) (0, [1]) =
     Inr ([Value_String ''old''],
          [0 \<mapsto> Value_Array [Value_Dict [(''k'', Value_Int 3)], Value_Undefined]]) \<and>
   Value_move (Value_Dict [(''k'', Value_Int 3)]) =
     (Value_Dict [(''k'', Value_Int 3)], Value_Undefined)"
  using move_transfers [where v = "Value_Dict [(''k'', Value_Int 3)]"
      and s = "[0 \<mapsto> Value_Array [Value_String ''old'', Value_Dict [(''k'', Value_Int 3)]]]"
      and this = "(0, [0])" and that = "(0, [1])"]
  by (simp add: Value_move_assign_def Value_move_def deref_def assign_def owns_def
      separate_def releaseData_def Let_def)

text \<open>C9. On an empty buffer the first \<open>advance\<close> returns false with the token \<^verbatim>\<open>Eof\<close>, no
  byte of the buffer is read, and \<open>parse\<close> returns false without an exception. For every
  buffer and length, whether the parse returns or throws, every index at which the buffer
  has been read is below the length.\<close>

theorem reads_within_length:
  "fst (advance (setText Tokenizer_default chars 0)) = Inr False \<and>
   kind (m_token (snd (advance (setText Tokenizer_default chars 0)))) = TokenKind_Eof \<and>
   reads (snd (advance (setText Tokenizer_default chars 0))) = [] \<and>
   parse (Suc n) out chars 0 = Some (Inr (False, out)) \<and>
   map_option (\<lambda>p. reads (snd p)) (parse_run (Suc n) out chars 0) = Some [] \<and>
   (parse_run fuel out' chars' len = Some (r, t) \<longrightarrow> (\<forall>i \<in> set (reads t). i < len))"
proof -
  have nul: "m_char (setText Tokenizer_default chars 0) = CHR 0x00"
    by (simp add: setText_def)
  have "parse (Suc n) out chars 0 = Some (Inr (False, out))"
    by (simp add: parse_def parse_run_empty)
  moreover have "reads (setText Tokenizer_default chars 0) = []"
    by (simp add: setText_def Tokenizer_default_def)
  ultimately show ?thesis
    using parse_run_reads [of fuel out' chars' len r t] parse_run_empty_reads [of n out chars]
    by (simp add: advance_at_NUL [OF nul] kind_def)
qed

theorem reads_within_length_witness:
  "parse_run 1 Value_Undefined ''7'' 1 =
     Some (Inr (True, Value_Int 7),
       \<lparr>m_chars = ''7'', m_length = 1, m_index = 0, m_lineNumber = 1, m_columNumber = 0,
        m_char = CHR 0x00,
        m_token = \<lparr>span = \<lparr>beginLineNumber = 1, beginColumnNumber = 0, endLineNumber = 1,
                           endColumnNumber = 0\<rparr>, data = Token_Eof\<rparr>,
        reads = [0]\<rparr>) \<and>
   (0::nat) < 1"
proof -
  have h: "parse_run 1 Value_Undefined ''7'' 1 =
     Some (Inr (True, Value_Int 7),
       \<lparr>m_chars = ''7'', m_length = 1, m_index = 0, m_lineNumber = 1, m_columNumber = 0,
        m_char = CHR 0x00,
        m_token = \<lparr>span = \<lparr>beginLineNumber = 1, beginColumnNumber = 0, endLineNumber = 1,
                           endColumnNumber = 0\<rparr>, data = Token_Eof\<rparr>,
        reads = [0]\<rparr>)"
    by code_simp
  from reads_within_length [where fuel = 1 and out' = Value_Undefined and chars' = "''7''"
      and len = 1, THEN conjunct2, THEN conjunct2, THEN conjunct2, THEN conjunct2,
      THEN conjunct2, THEN mp, OF h] h
  show ?thesis by simp
qed

text \<open>C10. The parse of a buffer of any length ends. Every loop of the tokenizer is a total
  function: a call of \<open>advanceChar\<close> either moves the index forward by one or returns false
  and leaves NUL as the current character, on which every loop stops, and what is left to
  scan never grows. Every \<open>advance\<close> that returns leaves no more to parse than there was to
  scan. So a bound of \<open>6 * len + 4\<close> on the depth of calls is never used up by a parse of
  \<open>len\<close> bytes, and a larger bound gives the same result.\<close>

theorem parse_terminates:
  "m_index (snd (advanceChar t)) = (if fst (advanceChar t) then m_index t + 1 else m_index t) \<and>
   (fst (advanceChar t) \<or> m_char (snd (advanceChar t)) = CHR 0x00) \<and>
   remaining (snd (advanceChar t)) \<le> remaining t \<and>
   (isl (fst (advance t)) \<or> unparsed (snd (advance t)) \<le> remaining t) \<and>
   (6 * len + 4 \<le> fuel \<longrightarrow>
      (\<exists>r. parse fuel out chars len = Some r \<and>
           (\<forall>fuel' \<ge> fuel. parse fuel' out chars len = Some r)))"
proof -
  have 1: "m_index (snd (advanceChar t)) = (if fst (advanceChar t) then m_index t + 1 else m_index t)"
    by (simp add: advanceChar_def Let_def)
  have 2: "fst (advanceChar t) \<or> m_char (snd (advanceChar t)) = CHR 0x00"
    using advanceChar_False_char by blast
  have 3: "isl (fst (advance t)) \<or> unparsed (snd (advance t)) \<le> remaining t"
  proof (cases "advance t")
    case (Pair x t')
    then show ?thesis
      using advance_progress [of t _ t'] by (cases x) auto
  qed
  have 4: "\<exists>r. parse fuel out chars len = Some r \<and>
           (\<forall>fuel' \<ge> fuel. parse fuel' out chars len = Some r)" if "6 * len + 4 \<le> fuel"
  proof -
    from parse_run_defined [OF that, of out chars]
    obtain r where "parse fuel out chars len = Some r"
      by (auto simp: defined_def parse_def)
    then show ?thesis
      using parse_fuel_mono by blast
  qed
  from 1 2 3 4 advanceChar_remaining_le [of t] show ?thesis
    by blast
qed

theorem parse_terminates_witness:
  "6 * 1 + 4 \<le> (10::nat) \<and>
   parse 10 Value_Undefined ''7'' 1 = Some (Inr (True, Value_Int 7)) \<and>
   parse 11 Value_Undefined ''7'' 1 = Some (Inr (True, Value_Int 7))"
proof -
  have h: "parse 10 Value_Undefined ''7'' 1 = Some (Inr (True, Value_Int 7))"
    by code_simp
  from parse_terminates [where len = 1 and fuel = 10 and out = Value_Undefined
      and chars = "''7''", THEN conjunct2, THEN conjunct2, THEN conjunct2, THEN conjunct2] h
  show ?thesis by auto
qed

end
